theory Spec2Isabelle
  imports Main "HOL-Library.Word" "HOL-Library.Sublist"
begin

unbundle bit_operations_syntax

section \<open>Data model\<close>

text \<open>
  A \<open>Uint8Array\<close> is a list of bytes. A JavaScript string is the list of its UTF-16
  code units, each a number below 65536; JavaScript numbers that hold sizes, offsets and
  counters are natural numbers. \<open>js\<close> turns an ASCII literal into such a string.
\<close>

type_synonym byte = "8 word"
type_synonym jstring = "nat list"

definition js :: "string \<Rightarrow> jstring" where
  "js s = map of_char s"

text \<open>
  What the code throws: the \<open>RangeError\<close> of a \<open>DataView\<close> read outside the
  buffer, and \<open>new Error(message)\<close>.
\<close>

datatype error = RangeError | Error jstring

subsection \<open>Numbers as text\<close>

text \<open>\<open>n.toString()\<close> and \<open>n.toString(16)\<close> for a non-negative integer.\<close>

fun toString10 :: "nat \<Rightarrow> jstring" where
  "toString10 n = (if n < 10 then [48 + n] else toString10 (n div 10) @ [48 + n mod 10])"

declare toString10.simps [simp del]

definition hexDigit :: "nat \<Rightarrow> nat" where
  "hexDigit d = (if d < 10 then 48 + d else 87 + d)"

fun toString16 :: "nat \<Rightarrow> jstring" where
  "toString16 n = (if n < 16 then [hexDigit n] else toString16 (n div 16) @ [hexDigit (n mod 16)])"

declare toString16.simps [simp del]

definition padStart :: "jstring \<Rightarrow> nat \<Rightarrow> nat \<Rightarrow> jstring" where
  "padStart s n c = replicate (n - length s) c @ s"

definition isDigit :: "nat \<Rightarrow> bool" where
  "isDigit c = (48 \<le> c \<and> c \<le> 57)"

text \<open>
  \<open>parseInt(ds, 10)\<close> on a non-empty run of ASCII digits, which is all the regular
  expressions hand to it. The result is the mathematical value; a JavaScript number
  holds it exactly below \<open>2 ^ 53\<close>, and the code compares it only with counters
  below 65536.
\<close>

definition parseInt :: "jstring \<Rightarrow> nat" where
  "parseInt ds = foldl (\<lambda>a d. 10 * a + (d - 48)) 0 ds"

subsection \<open>String tests\<close>

fun startsWith :: "jstring \<Rightarrow> jstring \<Rightarrow> bool" where
  "startsWith text [] = True"
| "startsWith [] (p # ps) = False"
| "startsWith (c # cs) (p # ps) = (c = p \<and> startsWith cs ps)"

fun includes_str :: "jstring \<Rightarrow> jstring \<Rightarrow> bool" where
  "includes_str [] p = startsWith [] p"
| "includes_str (c # cs) p = (startsWith (c # cs) p \<or> includes_str cs p)"

text \<open>
  The code points of a string, as a regular expression with the \<open>u\<close> flag walks them:
  a high surrogate followed by a low one is one code point, any other unit is itself.
\<close>

fun code_points :: "jstring \<Rightarrow> nat list" where
  "code_points [] = []"
| "code_points [c] = [c]"
| "code_points (h # l # cs) =
     (if 0xD800 \<le> h \<and> h \<le> 0xDBFF \<and> 0xDC00 \<le> l \<and> l \<le> 0xDFFF
      then (0x10000 + (h - 0xD800) * 0x400 + (l - 0xDC00)) # code_points cs
      else h # code_points (l # cs))"

text \<open>
  \<open>\p{L}\<close>, the Unicode general category Letter. Among the ASCII code points it is
  exactly \<open>A-Z\<close> and \<open>a-z\<close>; beyond ASCII it is a table of the platform, taken as the
  parameter \<open>L\<close>.
\<close>

type_synonym letter_table = "nat \<Rightarrow> bool"

definition unicodeLetter :: "letter_table \<Rightarrow> nat \<Rightarrow> bool" where
  "unicodeLetter L cp =
     (if cp < 128 then (65 \<le> cp \<and> cp \<le> 90) \<or> (97 \<le> cp \<and> cp \<le> 122) else L cp)"

section \<open>The eligibility filter\<close>

text \<open>
  \<open>isValidString\<close>: the checks in the order of the source; the last line is
  \<open>/[\p{L}\d]/u.test(text)\<close>.
\<close>

definition isValidString :: "letter_table \<Rightarrow> jstring \<Rightarrow> bool" where
  "isValidString L text =
     (if length text < 2 then False
      else if startsWith text (js ''Ljava/'') then False
      else if startsWith text (js ''('') \<and> includes_str text (js '')'') then False
      else if includes_str text (js ''()V'') then False
      else if includes_str text (js ''Exception'') then False
      else if startsWith text (js ''META-INF/'') then False
      else list_ex (\<lambda>cp. unicodeLetter L cp \<or> isDigit cp) (code_points text))"

section \<open>Escaping for the editor\<close>

text \<open>\<open>toJavaUnicode\<close>: per UTF-16 code unit (\<open>str.split('')\<close>), joined.\<close>

definition escapeChar :: "nat \<Rightarrow> jstring" where
  "escapeChar c =
     (if c = 34 then [92, 34]
      else if c = 92 then [92, 92]
      else if c < 32 then [92, 117] @ padStart (toString16 c) 4 48
      else [c])"

definition toJavaUnicode :: "jstring \<Rightarrow> jstring" where
  "toJavaUnicode str = concat (map escapeChar str)"

text \<open>
  \<open>fromJavaUnicode\<close> is \<open>JSON.parse\<close> of the text between two quotes, with the input
  returned when the parse throws. The JSON grammar of a string: any unit but the quote,
  the backslash and the controls below 32, or a backslash and one of
  \<open>" \ / b f n r t\<close>, or \<open>\u\<close> and four hexadecimal digits. An unescaped quote inside
  ends the string early and leaves the closing quote behind it, which is a syntax error.
\<close>

definition hexValue :: "nat \<Rightarrow> nat option" where
  "hexValue c =
     (if 48 \<le> c \<and> c \<le> 57 then Some (c - 48)
      else if 97 \<le> c \<and> c \<le> 102 then Some (c - 87)
      else if 65 \<le> c \<and> c \<le> 70 then Some (c - 55)
      else None)"

definition jsonSimpleEscape :: "nat \<Rightarrow> nat option" where
  "jsonSimpleEscape e =
     (if e = 34 then Some 34 else if e = 92 then Some 92 else if e = 47 then Some 47
      else if e = 98 then Some 8 else if e = 102 then Some 12 else if e = 110 then Some 10
      else if e = 114 then Some 13 else if e = 116 then Some 9 else None)"

text \<open>One character of a JSON string body: the unit it stands for and the rest.\<close>

definition jsonChar :: "jstring \<Rightarrow> (nat \<times> jstring) option" where
  "jsonChar s =
     (case s of
        [] \<Rightarrow> None
      | c # cs \<Rightarrow>
          if c = 34 then None
          else if c = 92 then
            (case cs of
               [] \<Rightarrow> None
             | e # r \<Rightarrow>
                 if e = 117 then
                   (case r of
                      h1 # h2 # h3 # h4 # r' \<Rightarrow>
                        (case (hexValue h1, hexValue h2, hexValue h3, hexValue h4) of
                           (Some a, Some b, Some c, Some d) \<Rightarrow>
                             Some (((a * 16 + b) * 16 + c) * 16 + d, r')
                         | _ \<Rightarrow> None)
                    | _ \<Rightarrow> None)
                 else (case jsonSimpleEscape e of Some v \<Rightarrow> Some (v, r) | None \<Rightarrow> None))
          else if c < 32 then None
          else Some (c, cs))"

lemma jsonChar_shorter: "jsonChar s = Some (v, r) \<Longrightarrow> length r < length s"
  by (auto simp: jsonChar_def split: list.splits if_splits option.splits)

function jsonBody :: "jstring \<Rightarrow> jstring option" where
  "jsonBody s =
     (if s = [] then Some []
      else (case jsonChar s of
              None \<Rightarrow> None
            | Some (v, r) \<Rightarrow> (case jsonBody r of None \<Rightarrow> None | Some t \<Rightarrow> Some (v # t))))"
  by pat_completeness auto
termination
  by (relation "measure length") (auto dest: jsonChar_shorter)

declare jsonBody.simps [simp del]

definition fromJavaUnicode :: "jstring \<Rightarrow> jstring" where
  "fromJavaUnicode str = (case jsonBody str of Some t \<Rightarrow> t | None \<Rightarrow> str)"

section \<open>UTF-8 text of the platform\<close>

text \<open>
  \<open>new TextDecoder('utf-8').decode(bytes)\<close>, the decoder of the WHATWG Encoding
  standard: a lead byte fixes how many continuation bytes follow and the range of the
  first of them; a byte that cannot stand where it is gives U+FFFD and, when it came
  where a continuation byte was due, is read again as a lead byte; so does the end of
  the input inside a sequence. A byte order mark at the very start is dropped. Code
  points above U+FFFF become surrogate pairs.
\<close>

fun utf8Decode :: "nat \<Rightarrow> nat \<Rightarrow> nat \<Rightarrow> nat \<Rightarrow> nat \<Rightarrow> nat list \<Rightarrow> nat list" where
  "utf8Decode cp seen needed lower upper [] = (if needed \<noteq> 0 then [0xFFFD] else [])"
| "utf8Decode cp seen needed lower upper (b # bs) =
     (if needed = 0 then
        (if b \<le> 0x7F then b # utf8Decode 0 0 0 0x80 0xBF bs
         else if 0xC2 \<le> b \<and> b \<le> 0xDF then utf8Decode (b mod 32) 0 1 0x80 0xBF bs
         else if 0xE0 \<le> b \<and> b \<le> 0xEF then
           utf8Decode (b mod 16) 0 2 (if b = 0xE0 then 0xA0 else 0x80)
             (if b = 0xED then 0x9F else 0xBF) bs
         else if 0xF0 \<le> b \<and> b \<le> 0xF4 then
           utf8Decode (b mod 8) 0 3 (if b = 0xF0 then 0x90 else 0x80)
             (if b = 0xF4 then 0x8F else 0xBF) bs
         else 0xFFFD # utf8Decode 0 0 0 0x80 0xBF bs)
      else if b < lower \<or> upper < b then 0xFFFD # utf8Decode 0 0 0 0x80 0xBF (b # bs)
      else if seen + 1 = needed then (cp * 64 + b mod 64) # utf8Decode 0 0 0 0x80 0xBF bs
      else utf8Decode (cp * 64 + b mod 64) (seen + 1) needed 0x80 0xBF bs)"

definition stripBOM :: "nat list \<Rightarrow> nat list" where
  "stripBOM bs = (if take 3 bs = [0xEF, 0xBB, 0xBF] then drop 3 bs else bs)"

definition toUTF16 :: "nat \<Rightarrow> jstring" where
  "toUTF16 cp =
     (if cp < 0x10000 then [cp]
      else [0xD800 + (cp - 0x10000) div 0x400, 0xDC00 + (cp - 0x10000) mod 0x400])"

definition decode :: "byte list \<Rightarrow> jstring" where
  "decode bytes = concat (map toUTF16 (utf8Decode 0 0 0 0x80 0xBF (stripBOM (map unat bytes))))"

text \<open>
  \<open>new TextEncoder().encode(text)\<close>: the code points of the string, a surrogate
  without its partner replaced by U+FFFD, each written in UTF-8.
\<close>

definition utf8Bytes :: "nat \<Rightarrow> nat list" where
  "utf8Bytes cp =
     (if cp < 0x80 then [cp]
      else if cp < 0x800 then [0xC0 + cp div 64, 0x80 + cp mod 64]
      else if cp < 0x10000 then [0xE0 + cp div 4096, 0x80 + (cp div 64) mod 64, 0x80 + cp mod 64]
      else [0xF0 + cp div 262144, 0x80 + (cp div 4096) mod 64, 0x80 + (cp div 64) mod 64,
            0x80 + cp mod 64])"

definition scalarValue :: "nat \<Rightarrow> nat" where
  "scalarValue cp = (if 0xD800 \<le> cp \<and> cp \<le> 0xDFFF then 0xFFFD else cp)"

definition encode :: "jstring \<Rightarrow> byte list" where
  "encode text = map of_nat (concat (map (utf8Bytes \<circ> scalarValue) (code_points text)))"

section \<open>Reading and writing the buffer\<close>

text \<open>
  The \<open>DataView\<close> reads are big-endian and throw \<open>RangeError\<close> when the bytes asked
  for do not all lie inside the buffer. \<open>slice\<close> never throws: both ends are clamped.
\<close>

definition getUint8 :: "byte list \<Rightarrow> nat \<Rightarrow> error + nat" where
  "getUint8 content offset =
     (if offset + 1 \<le> length content then Inr (unat (content ! offset)) else Inl RangeError)"

definition getUint16 :: "byte list \<Rightarrow> nat \<Rightarrow> error + nat" where
  "getUint16 content offset =
     (if offset + 2 \<le> length content
      then Inr (unat (content ! offset) * 256 + unat (content ! (offset + 1)))
      else Inl RangeError)"

definition getUint32 :: "byte list \<Rightarrow> nat \<Rightarrow> error + nat" where
  "getUint32 content offset =
     (if offset + 4 \<le> length content
      then Inr (((unat (content ! offset) * 256 + unat (content ! (offset + 1))) * 256
                  + unat (content ! (offset + 2))) * 256 + unat (content ! (offset + 3)))
      else Inl RangeError)"

definition slice :: "'a list \<Rightarrow> nat \<Rightarrow> nat \<Rightarrow> 'a list" where
  "slice xs start stop = take (stop - start) (drop start xs)"

text \<open>
  The writers of \<open>assembleClassFile\<close>, each returning the bytes it pushes:
  \<open>(v >> 8) & 0xFF\<close> and \<open>v & 0xFF\<close> keep eight bits each and drop the rest of \<open>v\<close>.
\<close>

definition writeU1 :: "nat \<Rightarrow> byte list" where
  "writeU1 v = [of_nat (v AND 0xFF)]"

definition writeU2 :: "nat \<Rightarrow> byte list" where
  "writeU2 v = [of_nat (drop_bit 8 v AND 0xFF), of_nat (v AND 0xFF)]"

abbreviation (input) CONSTANT_Utf8 :: nat where "CONSTANT_Utf8 \<equiv> 1"
abbreviation (input) CONSTANT_Integer :: nat where "CONSTANT_Integer \<equiv> 3"
abbreviation (input) CONSTANT_Float :: nat where "CONSTANT_Float \<equiv> 4"
abbreviation (input) CONSTANT_Long :: nat where "CONSTANT_Long \<equiv> 5"
abbreviation (input) CONSTANT_Double :: nat where "CONSTANT_Double \<equiv> 6"
abbreviation (input) CONSTANT_Class :: nat where "CONSTANT_Class \<equiv> 7"
abbreviation (input) CONSTANT_String :: nat where "CONSTANT_String \<equiv> 8"
abbreviation (input) CONSTANT_Fieldref :: nat where "CONSTANT_Fieldref \<equiv> 9"
abbreviation (input) CONSTANT_Methodref :: nat where "CONSTANT_Methodref \<equiv> 10"
abbreviation (input) CONSTANT_InterfaceMethodref :: nat where "CONSTANT_InterfaceMethodref \<equiv> 11"
abbreviation (input) CONSTANT_NameAndType :: nat where "CONSTANT_NameAndType \<equiv> 12"
abbreviation (input) CONSTANT_MethodHandle :: nat where "CONSTANT_MethodHandle \<equiv> 15"
abbreviation (input) CONSTANT_MethodType :: nat where "CONSTANT_MethodType \<equiv> 16"
abbreviation (input) CONSTANT_Dynamic :: nat where "CONSTANT_Dynamic \<equiv> 17"
abbreviation (input) CONSTANT_InvokeDynamic :: nat where "CONSTANT_InvokeDynamic \<equiv> 18"
abbreviation (input) CONSTANT_Module :: nat where "CONSTANT_Module \<equiv> 19"
abbreviation (input) CONSTANT_Package :: nat where "CONSTANT_Package \<equiv> 20"

section \<open>Lines and the two line patterns\<close>

text \<open>\<open>text.split('\n')\<close>: the pieces between line feeds; the empty text is one empty piece.\<close>

fun splitLines :: "jstring \<Rightarrow> jstring list" where
  "splitLines [] = [[]]"
| "splitLines (c # cs) =
     (if c = 10 then [] # splitLines cs
      else (case splitLines cs of l # ls \<Rightarrow> (c # l) # ls | [] \<Rightarrow> [[c]]))"

text \<open>
  The character classes of the regular expressions: \<open>\s\<close> (white space and line
  terminators of ECMAScript), and the line terminators, which \<open>.\<close> does not match.
\<close>

definition isSpace :: "nat \<Rightarrow> bool" where
  "isSpace c =
     (c = 9 \<or> c = 10 \<or> c = 11 \<or> c = 12 \<or> c = 13 \<or> c = 32 \<or> c = 0xA0 \<or> c = 0x1680
      \<or> (0x2000 \<le> c \<and> c \<le> 0x200A) \<or> c = 0x2028 \<or> c = 0x2029 \<or> c = 0x202F
      \<or> c = 0x205F \<or> c = 0x3000 \<or> c = 0xFEFF)"

definition isLineTerminator :: "nat \<Rightarrow> bool" where
  "isLineTerminator c = (c = 10 \<or> c = 13 \<or> c = 0x2028 \<or> c = 0x2029)"

text \<open>
  \<open>((?:[^"\\]|\\.)*)"\<close> read from the opening quote on: the captured value, when the
  closing quote is reached. A unit other than quote and backslash is one step of the
  star; a backslash with a unit after it that is no line terminator is one step; the
  quote ends the star. Where a step begins there is no quote, so giving steps back never
  finds the closing quote earlier: the greedy run is the only candidate.
\<close>

fun scanValue :: "jstring \<Rightarrow> jstring option" where
  "scanValue [] = None"
| "scanValue (c # cs) =
     (if c = 34 then Some []
      else if c = 92 then
        (case cs of
           [] \<Rightarrow> None
         | d # r \<Rightarrow> if isLineTerminator d then None else map_option (\<lambda>v. c # d # v) (scanValue r))
      else map_option (\<lambda>v. c # v) (scanValue cs))"

definition stripPrefix :: "jstring \<Rightarrow> jstring \<Rightarrow> jstring option" where
  "stripPrefix p s = (if startsWith s p then Some (drop (length p) s) else None)"

text \<open>
  \<open>/str_(\d+)\s*=\s*"((?:[^"\\]|\\.)*)"/\<close> tried at the start of \<open>s\<close>: the two captures.
  After the digits comes white space or \<open>=\<close>, after white space \<open>=\<close> or the quote, so the
  greedy runs of \<open>\d+\<close> and \<open>\s*\<close> are the only ones that can go on.
\<close>

definition editMatchAt :: "jstring \<Rightarrow> (jstring \<times> jstring) option" where
  "editMatchAt s =
     (case stripPrefix (js ''str_'') s of
        None \<Rightarrow> None
      | Some r \<Rightarrow>
          if takeWhile isDigit r = [] then None
          else (case dropWhile isSpace (dropWhile isDigit r) of
                  [] \<Rightarrow> None
                | e # r2 \<Rightarrow>
                    if e \<noteq> 61 then None
                    else (case dropWhile isSpace r2 of
                            [] \<Rightarrow> None
                          | q # r3 \<Rightarrow>
                              if q \<noteq> 34 then None
                              else map_option (\<lambda>v. (takeWhile isDigit r, v)) (scanValue r3))))"

text \<open>\<open>line.match(regex)\<close> without the \<open>g\<close> flag: the leftmost start that matches.\<close>

fun editSearch :: "jstring \<Rightarrow> (jstring \<times> jstring) option" where
  "editSearch [] = editMatchAt []"
| "editSearch (c # cs) =
     (case editMatchAt (c # cs) of Some m \<Rightarrow> Some m | None \<Rightarrow> editSearch cs)"

text \<open>\<open>/str_\s*(\d+)\s*\|\s*"((?:[^"\\]|\\.)*)"/\<close>, the pattern of a reference line.\<close>

definition refMatchAt :: "jstring \<Rightarrow> (jstring \<times> jstring) option" where
  "refMatchAt s =
     (case stripPrefix (js ''str_'') s of
        None \<Rightarrow> None
      | Some r0 \<Rightarrow>
          (let r = dropWhile isSpace r0 in
           if takeWhile isDigit r = [] then None
           else (case dropWhile isSpace (dropWhile isDigit r) of
                   [] \<Rightarrow> None
                 | e # r2 \<Rightarrow>
                     if e \<noteq> 124 then None
                     else (case dropWhile isSpace r2 of
                             [] \<Rightarrow> None
                           | q # r3 \<Rightarrow>
                               if q \<noteq> 34 then None
                               else map_option (\<lambda>v. (takeWhile isDigit r, v)) (scanValue r3)))))"

fun refSearch :: "jstring \<Rightarrow> (jstring \<times> jstring) option" where
  "refSearch [] = refMatchAt []"
| "refSearch (c # cs) =
     (case refMatchAt (c # cs) of Some m \<Rightarrow> Some m | None \<Rightarrow> refSearch cs)"

section \<open>The text formats\<close>

definition configHeader :: "jstring \<Rightarrow> jstring" where
  \<open>configHeader fileName =
     js ''# Translation File: '' @ fileName @ [10]
     @ js ''# Only edit text inside quotes "..."'' @ [10]
     @ js ''# Format: str_ID = "Value"'' @ [10, 10]\<close>

definition referenceHeader :: jstring where
  "referenceHeader =
     js ''# RAW CONSTANT POOL (REFERENCE ONLY)'' @ [10]
     @ js ''# ID    | Value (UTF-8)'' @ [10]
     @ js ''# ------|--------------------------'' @ [10]"

text \<open>The line \<open>str_${id} = "${value}"\n\<close>, with the id already rendered.\<close>

definition configLine :: "jstring \<Rightarrow> jstring \<Rightarrow> jstring" where
  "configLine ident v = js ''str_'' @ ident @ js '' = '' @ [34] @ v @ [34, 10]"

text \<open>The line \<open>str_${paddedIdx} | "${value}"\n\<close>.\<close>

definition referenceLine :: "jstring \<Rightarrow> jstring \<Rightarrow> jstring" where
  "referenceLine ident v = js ''str_'' @ ident @ js '' | '' @ [34] @ v @ [34, 10]"

definition convertReferenceToConfig :: "jstring \<Rightarrow> jstring \<Rightarrow> jstring" where
  "convertReferenceToConfig referenceText fileName =
     foldl (\<lambda>output line.
              case refSearch line of
                Some (ident, v) \<Rightarrow> output @ configLine ident v
              | None \<Rightarrow> output)
       (configHeader fileName) (splitLines referenceText)"

text \<open>
  The replacements map of \<open>assembleClassFile\<close>: every line that matches sets its id,
  a later line for the same id overwriting an earlier one.
\<close>

definition setReplacement :: "(nat \<rightharpoonup> jstring) \<Rightarrow> jstring \<Rightarrow> (nat \<rightharpoonup> jstring)" where
  "setReplacement m line =
     (case editSearch line of
        Some (ident, v) \<Rightarrow> m(parseInt ident \<mapsto> fromJavaUnicode v)
      | None \<Rightarrow> m)"

definition parseReplacements :: "jstring \<Rightarrow> (nat \<rightharpoonup> jstring)" where
  "parseReplacements editorText = foldl setReplacement Map.empty (splitLines editorText)"

section \<open>The three walks over the constant pool\<close>

text \<open>
  Each walk has its own copy of the \<open>switch\<close> over the tags other than Utf8. The result
  is the number of payload bytes and the extra step of the loop counter (Long and Double
  take two slots). The walk of the extractor and that of the assembler end in a
  \<open>default\<close> branch, here \<open>None\<close>; the walk of the reference view has none, and an
  unlisted tag changes neither offset nor counter.
\<close>

definition skipExtract :: "nat \<Rightarrow> (nat \<times> nat) option" where
  "skipExtract tag =
     (if tag = CONSTANT_Integer \<or> tag = CONSTANT_Float \<or> tag = CONSTANT_Fieldref
         \<or> tag = CONSTANT_Methodref \<or> tag = CONSTANT_InterfaceMethodref
         \<or> tag = CONSTANT_NameAndType \<or> tag = CONSTANT_Dynamic \<or> tag = CONSTANT_InvokeDynamic
      then Some (4, 0)
      else if tag = CONSTANT_Long \<or> tag = CONSTANT_Double then Some (8, 1)
      else if tag = CONSTANT_Class \<or> tag = CONSTANT_String \<or> tag = CONSTANT_MethodType
         \<or> tag = CONSTANT_Module \<or> tag = CONSTANT_Package
      then Some (2, 0)
      else if tag = CONSTANT_MethodHandle then Some (3, 0)
      else None)"

definition skipReadable :: "nat \<Rightarrow> nat \<times> nat" where
  "skipReadable tag =
     (if tag = CONSTANT_Integer \<or> tag = CONSTANT_Float \<or> tag = CONSTANT_Fieldref
         \<or> tag = CONSTANT_Methodref \<or> tag = CONSTANT_InterfaceMethodref
         \<or> tag = CONSTANT_NameAndType \<or> tag = CONSTANT_Dynamic \<or> tag = CONSTANT_InvokeDynamic
      then (4, 0)
      else if tag = CONSTANT_Long \<or> tag = CONSTANT_Double then (8, 1)
      else if tag = CONSTANT_Class \<or> tag = CONSTANT_String \<or> tag = CONSTANT_MethodType
         \<or> tag = CONSTANT_Module \<or> tag = CONSTANT_Package
      then (2, 0)
      else if tag = CONSTANT_MethodHandle then (3, 0)
      else (0, 0))"

definition sizeAssemble :: "nat \<Rightarrow> (nat \<times> nat) option" where
  "sizeAssemble tag =
     (if tag = CONSTANT_Integer \<or> tag = CONSTANT_Float \<or> tag = CONSTANT_Fieldref
         \<or> tag = CONSTANT_Methodref \<or> tag = CONSTANT_InterfaceMethodref
         \<or> tag = CONSTANT_NameAndType \<or> tag = CONSTANT_Dynamic \<or> tag = CONSTANT_InvokeDynamic
      then Some (4, 0)
      else if tag = CONSTANT_Long \<or> tag = CONSTANT_Double then Some (8, 1)
      else if tag = CONSTANT_Class \<or> tag = CONSTANT_String \<or> tag = CONSTANT_MethodType
         \<or> tag = CONSTANT_Module \<or> tag = CONSTANT_Package
      then Some (2, 0)
      else if tag = CONSTANT_MethodHandle then Some (3, 0)
      else None)"

text \<open>
  The extractor and the assembler are modelled with a log beside their result: one
  \<open>Visit\<close> per Utf8 entry met, holding the loop counter \<open>i\<close> (the pool index), the
  offset of the payload, and the value of \<open>stringIndex\<close> the entry is given when
  \<open>isValidString\<close> accepts it (\<open>None\<close> when it does not). The log is not part of the
  program; it records the decisions the program takes.
\<close>

datatype visit = Visit (poolIndex: nat) (payloadOffset: nat) (stableId: "nat option")

definition unknownTagMessage :: "nat \<Rightarrow> nat \<Rightarrow> jstring" where
  "unknownTagMessage tag offset =
     js ''# ERROR: Unknown Constant Pool Tag '' @ toString10 tag @ js '' at offset ''
     @ toString10 offset"

text \<open>The \<open>for\<close> loop of \<open>extractStringsFromClass\<close>.\<close>

function extractLoop ::
  "letter_table \<Rightarrow> byte list \<Rightarrow> nat \<Rightarrow> nat \<Rightarrow> nat \<Rightarrow> nat \<Rightarrow> jstring \<Rightarrow> visit list
   \<Rightarrow> visit list \<times> (error + jstring)" where
  "extractLoop L content cpCount i offset stringIndex output log =
     (if i < cpCount then
        (case getUint8 content offset of
           Inl e \<Rightarrow> (log, Inl e)
         | Inr tag \<Rightarrow>
             if tag = CONSTANT_Utf8 then
               (case getUint16 content (offset + 1) of
                  Inl e \<Rightarrow> (log, Inl e)
                | Inr len \<Rightarrow>
                    (let bytes = slice content (offset + 3) (offset + 3 + len);
                         text = decode bytes
                     in if isValidString L text
                        then extractLoop L content cpCount (i + 1) (offset + 3 + len)
                               (stringIndex + 1)
                               (output @ configLine (toString10 stringIndex) (toJavaUnicode text))
                               (log @ [Visit i (offset + 3) (Some stringIndex)])
                        else extractLoop L content cpCount (i + 1) (offset + 3 + len)
                               stringIndex output (log @ [Visit i (offset + 3) None])))
             else
               (case skipExtract tag of
                  Some (sz, extra) \<Rightarrow>
                    extractLoop L content cpCount (i + extra + 1) (offset + 1 + sz)
                      stringIndex output log
                | None \<Rightarrow> (log, Inr (unknownTagMessage tag (offset + 1)))))
      else (log, Inr output))"
  by pat_completeness auto
termination
  by (relation "measure (\<lambda>(L, content, cpCount, i, rest). cpCount - i)") auto

declare extractLoop.simps [simp del]

definition invalidClassMessage :: jstring where
  "invalidClassMessage = js ''# ERROR: Not a valid Java Class File (Missing Magic Header)''"

definition extractWalk ::
  "letter_table \<Rightarrow> byte list \<Rightarrow> jstring \<Rightarrow> visit list \<times> (error + jstring)" where
  "extractWalk L content fileName =
     (case getUint32 content 0 of
        Inl e \<Rightarrow> ([], Inl e)
      | Inr magic \<Rightarrow>
          if magic \<noteq> 0xCAFEBABE then ([], Inr invalidClassMessage)
          else (case getUint16 content 8 of
                  Inl e \<Rightarrow> ([], Inl e)
                | Inr cpCount \<Rightarrow>
                    extractLoop L content cpCount 1 10 0 (configHeader fileName) []))"

text \<open>
  \<open>extractStringsFromClass\<close>: the text returned, or the exception thrown. Both error
  reports of the function are returned texts, not exceptions.
\<close>

definition extractStringsFromClass :: "letter_table \<Rightarrow> byte list \<Rightarrow> jstring \<Rightarrow> error + jstring" where
  "extractStringsFromClass L content fileName = snd (extractWalk L content fileName)"

definition extractVisits :: "letter_table \<Rightarrow> byte list \<Rightarrow> jstring \<Rightarrow> visit list" where
  "extractVisits L content fileName = fst (extractWalk L content fileName)"

text \<open>The \<open>for\<close> loop of \<open>extractReadableStrings\<close>.\<close>

function readableLoop ::
  "letter_table \<Rightarrow> byte list \<Rightarrow> nat \<Rightarrow> nat \<Rightarrow> nat \<Rightarrow> nat \<Rightarrow> jstring \<Rightarrow> error + jstring" where
  "readableLoop L content cpCount i offset stringIndex output =
     (if i < cpCount then
        (case getUint8 content offset of
           Inl e \<Rightarrow> Inl e
         | Inr tag \<Rightarrow>
             if tag = CONSTANT_Utf8 then
               (case getUint16 content (offset + 1) of
                  Inl e \<Rightarrow> Inl e
                | Inr len \<Rightarrow>
                    (let text = decode (slice content (offset + 3) (offset + 3 + len))
                     in if isValidString L text
                        then readableLoop L content cpCount (i + 1) (offset + 3 + len)
                               (stringIndex + 1)
                               (output @ referenceLine (padStart (toString10 stringIndex) 5 32)
                                           (toJavaUnicode text))
                        else readableLoop L content cpCount (i + 1) (offset + 3 + len)
                               stringIndex output))
             else
               (case skipReadable tag of
                  (sz, extra) \<Rightarrow>
                    readableLoop L content cpCount (i + extra + 1) (offset + 1 + sz)
                      stringIndex output))
      else Inr output)"
  by pat_completeness auto
termination
  by (relation "measure (\<lambda>(L, content, cpCount, i, rest). cpCount - i)") auto

declare readableLoop.simps [simp del]

definition invalidReferenceMessage :: jstring where
  "invalidReferenceMessage = js ''# Invalid Class File''"

definition extractReadableStrings :: "letter_table \<Rightarrow> byte list \<Rightarrow> error + jstring" where
  "extractReadableStrings L content =
     (case getUint32 content 0 of
        Inl e \<Rightarrow> Inl e
      | Inr magic \<Rightarrow>
          if magic \<noteq> 0xCAFEBABE then Inr invalidReferenceMessage
          else (case getUint16 content 8 of
                  Inl e \<Rightarrow> Inl e
                | Inr cpCount \<Rightarrow> readableLoop L content cpCount 1 10 0 referenceHeader))"

text \<open>
  The \<open>for\<close> loop of \<open>assembleClassFile\<close>; it returns the offset reached and the bytes
  written so far.
\<close>

definition unknownTagError :: "nat \<Rightarrow> error" where
  "unknownTagError tag = Error (js ''Unknown Tag '' @ toString10 tag @ js '' during assembly'')"

function assembleLoop ::
  "letter_table \<Rightarrow> (nat \<rightharpoonup> jstring) \<Rightarrow> byte list \<Rightarrow> nat \<Rightarrow> nat \<Rightarrow> nat \<Rightarrow> nat \<Rightarrow> byte list
   \<Rightarrow> visit list \<Rightarrow> visit list \<times> (error + nat \<times> byte list)" where
  "assembleLoop L replacements original cpCount i offset stringIndex newBytes log =
     (if i < cpCount then
        (case getUint8 original offset of
           Inl e \<Rightarrow> (log, Inl e)
         | Inr tag \<Rightarrow>
             if tag = CONSTANT_Utf8 then
               (case getUint16 original (offset + 1) of
                  Inl e \<Rightarrow> (log, Inl e)
                | Inr len \<Rightarrow>
                    (let rawBytes = slice original (offset + 3) (offset + 3 + len);
                         currentText = decode rawBytes
                     in if isValidString L currentText then
                          (case replacements stringIndex of
                             Some newText \<Rightarrow>
                               (let newTextBytes = encode newText
                                in assembleLoop L replacements original cpCount (i + 1)
                                     (offset + 3 + len) (stringIndex + 1)
                                     (newBytes @ writeU1 tag @ writeU2 (length newTextBytes)
                                        @ newTextBytes)
                                     (log @ [Visit i (offset + 3) (Some stringIndex)]))
                           | None \<Rightarrow>
                               assembleLoop L replacements original cpCount (i + 1)
                                 (offset + 3 + len) (stringIndex + 1)
                                 (newBytes @ writeU1 tag @ writeU2 (length rawBytes) @ rawBytes)
                                 (log @ [Visit i (offset + 3) (Some stringIndex)]))
                        else
                          assembleLoop L replacements original cpCount (i + 1)
                            (offset + 3 + len) stringIndex
                            (newBytes @ writeU1 tag @ writeU2 (length rawBytes) @ rawBytes)
                            (log @ [Visit i (offset + 3) None])))
             else
               (case sizeAssemble tag of
                  Some (sz, extra) \<Rightarrow>
                    assembleLoop L replacements original cpCount (i + extra + 1)
                      (offset + 1 + sz) stringIndex
                      (newBytes @ writeU1 tag @ slice original (offset + 1) (offset + 1 + sz))
                      log
                | None \<Rightarrow> (log, Inl (unknownTagError tag))))
      else (log, Inr (offset, newBytes)))"
  by pat_completeness auto
termination
  by (relation "measure (\<lambda>(L, replacements, original, cpCount, i, rest). cpCount - i)") auto

declare assembleLoop.simps [simp del]

text \<open>
  \<open>original[i]\<close> past the end of the buffer is \<open>undefined\<close>, stored as 0 by
  \<open>new Uint8Array(newBytes)\<close>.
\<close>

definition copyHeader :: "byte list \<Rightarrow> byte list" where
  "copyHeader original = map (\<lambda>i. if i < length original then original ! i else 0) [0..<8]"

definition assembleWalk ::
  "letter_table \<Rightarrow> byte list \<Rightarrow> jstring \<Rightarrow> visit list \<times> (error + byte list)" where
  "assembleWalk L original editorText =
     (let replacements = parseReplacements editorText
      in case getUint32 original 0 of
           Inl e \<Rightarrow> ([], Inl e)
         | Inr magic \<Rightarrow>
             if magic \<noteq> 0xCAFEBABE then ([], Inl (Error (js ''Invalid Magic Header'')))
             else (case getUint16 original 8 of
                     Inl e \<Rightarrow> ([], Inl e)
                   | Inr cpCount \<Rightarrow>
                       (case assembleLoop L replacements original cpCount 1 10 0
                               (copyHeader original @ writeU2 cpCount) [] of
                          (log, Inl e) \<Rightarrow> (log, Inl e)
                        | (log, Inr (offset, newBytes)) \<Rightarrow>
                            (log, Inr (newBytes @ drop offset original)))))"

definition assembleClassFile :: "letter_table \<Rightarrow> byte list \<Rightarrow> jstring \<Rightarrow> error + byte list" where
  "assembleClassFile L original editorText = snd (assembleWalk L original editorText)"

definition assembleVisits :: "letter_table \<Rightarrow> byte list \<Rightarrow> jstring \<Rightarrow> visit list" where
  "assembleVisits L original editorText = fst (assembleWalk L original editorText)"

section \<open>Notions of the specification and sample class files\<close>

text \<open>The stableIds a log hands out, in the order of the walk.\<close>

definition assignedIds :: "visit list \<Rightarrow> nat list" where
  "assignedIds lg = concat (map (\<lambda>v. case stableId v of Some k \<Rightarrow> [k] | None \<Rightarrow> []) lg)"

subsection \<open>What the two walks do at the entries they visit\<close>

text \<open>
  The Utf8 entry of a visit: its tag stands three bytes before the payload, its length
  field two bytes before, and the payload is the bytes \<open>slice\<close> gives for that length
  (fewer when the buffer ends early). \<open>visitOf\<close> says that a visit is an entry of the
  buffer and that it carries a stableId exactly when the filter accepts its text.
\<close>

definition visitedLength :: "byte list \<Rightarrow> visit \<Rightarrow> nat" where
  "visitedLength B v = (case getUint16 B (payloadOffset v - 2) of Inr n \<Rightarrow> n | Inl e \<Rightarrow> 0)"

definition visitedBytes :: "byte list \<Rightarrow> visit \<Rightarrow> byte list" where
  "visitedBytes B v = slice B (payloadOffset v) (payloadOffset v + visitedLength B v)"

definition visitOf :: "letter_table \<Rightarrow> byte list \<Rightarrow> visit \<Rightarrow> bool" where
  "visitOf L B v =
     (3 \<le> payloadOffset v \<and> payloadOffset v \<le> length B
      \<and> getUint8 B (payloadOffset v - 3) = Inr CONSTANT_Utf8
      \<and> (stableId v \<noteq> None) = isValidString L (decode (visitedBytes B v)))"

text \<open>
  The lines the extraction reports for a sequence of visits: one line \<open>str_k = "..."\<close>
  for every visit with stableId \<open>k\<close>, holding the text of that entry.
\<close>

fun reportedLines :: "byte list \<Rightarrow> visit list \<Rightarrow> jstring" where
  "reportedLines B [] = []"
| "reportedLines B (v # vs) =
     (case stableId v of
        Some k \<Rightarrow> configLine (toString10 k) (toJavaUnicode (decode (visitedBytes B v)))
      | None \<Rightarrow> [])
     @ reportedLines B vs"

text \<open>
  The buffer with the edits applied at a sequence of visits: the bytes from \<open>pos\<close> up to
  the length field of the next visit as they are, then the length and the payload of
  that entry, the payload being the encoded replacement when the visit has stableId
  \<open>k\<close> and the replacements hold \<open>k\<close>, and the bytes of the entry otherwise; after the last
  visit the rest of the buffer.
\<close>

definition writtenBytes :: "(nat \<rightharpoonup> jstring) \<Rightarrow> byte list \<Rightarrow> visit \<Rightarrow> byte list" where
  "writtenBytes R B v =
     (case stableId v of
        Some k \<Rightarrow> (case R k of Some newText \<Rightarrow> encode newText | None \<Rightarrow> visitedBytes B v)
      | None \<Rightarrow> visitedBytes B v)"

fun splicedBytes :: "(nat \<rightharpoonup> jstring) \<Rightarrow> byte list \<Rightarrow> nat \<Rightarrow> visit list \<Rightarrow> byte list" where
  "splicedBytes R B pos [] = drop pos B"
| "splicedBytes R B pos (v # vs) =
     slice B pos (payloadOffset v - 2)
     @ writeU2 (length (writtenBytes R B v)) @ writtenBytes R B v
     @ splicedBytes R B (payloadOffset v + visitedLength B v) vs"

text \<open>
  When the assembler throws \<open>e\<close>, the extraction fails at the same place with result
  \<open>r\<close>: the same \<open>RangeError\<close>, or its report of the wrong magic number or of the
  unknown tag.
\<close>

definition walkFailure :: "byte list \<Rightarrow> error \<Rightarrow> error + jstring \<Rightarrow> bool" where
  "walkFailure B e r =
     ((e = RangeError \<and> r = Inl RangeError)
      \<or> (e = Error (js ''Invalid Magic Header'') \<and> r = Inr invalidClassMessage)
      \<or> (\<exists>tag < 256. \<exists>off \<le> length B.
            e = unknownTagError tag \<and> r = Inr (unknownTagMessage tag off)))"

text \<open>
  The filter as the specification words it: the seven grounds for rejecting a text,
  with the library's \<open>prefix\<close> and \<open>sublist\<close> for "starts with" and "contains". A digit
  is what \<open>\d\<close> matches, one of \<open>0-9\<close>.
\<close>

definition rejectedText :: "letter_table \<Rightarrow> jstring \<Rightarrow> bool" where
  "rejectedText L t =
     (length t < 2
      \<or> prefix (js ''Ljava/'') t
      \<or> (prefix (js ''('') t \<and> sublist (js '')'') t)
      \<or> sublist (js ''()V'') t
      \<or> sublist (js ''Exception'') t
      \<or> prefix (js ''META-INF/'') t
      \<or> (\<forall>cp \<in> set (code_points t). \<not> (unicodeLetter L cp \<or> isDigit cp)))"

text \<open>
  A letter table for the samples: no letter beyond ASCII. The sample texts are ASCII,
  and U+FFFD is no letter.
\<close>

definition asciiLetters :: letter_table where
  "asciiLetters cp = False"

text \<open>
  Sample buffers: the magic number, version 0.52 and the pool count, then the pool.
  \<open>filterClass\<close> holds the Utf8 entries \<open>Ljava/lang/String;\<close> and \<open>Hello World\<close>.
\<close>

definition asciiBytes :: "string \<Rightarrow> byte list" where
  "asciiBytes s = map of_char s"

definition classHeader :: "nat \<Rightarrow> byte list" where
  "classHeader cpCount = [0xCA, 0xFE, 0xBA, 0xBE, 0, 0, 0, 0x34] @ writeU2 cpCount"

definition filterClass :: "byte list" where
  "filterClass =
     classHeader 3 @ [1, 0, 18] @ asciiBytes ''Ljava/lang/String;''
     @ [1, 0, 11] @ asciiBytes ''Hello World''"

text \<open>
  \<open>unknownTagClass\<close>: a pool of count 3 whose first entry starts with the unassigned
  tag 2, followed by the bytes of a Utf8 entry \<open>OK\<close>.
\<close>

definition unknownTagClass :: "byte list" where
  "unknownTagClass = classHeader 3 @ [2, 1, 0, 2] @ asciiBytes ''OK''"

subsection \<open>A well-formed class file\<close>

text \<open>
  The constant pool as the specification describes it: a sequence of entries, each a tag
  and a payload, a Utf8 entry with a two-byte length before its bytes, the other tags
  with the payload lengths of the table in section 4.1; Long and Double take two of
  the \<open>constant_pool_count - 1\<close> slots. \<open>parsePool slots bs\<close> reads \<open>slots\<close> slots from
  \<open>bs\<close> and gives the entries and the bytes after the pool, or \<open>None\<close> when a tag is not
  in the table or an entry does not lie inside the buffer.
\<close>

datatype poolEntry = Utf8Entry "byte list" | FixedEntry nat "byte list"

definition payloadLength :: "nat \<Rightarrow> (nat \<times> nat) option" where
  "payloadLength tag =
     (if tag \<in> {3, 4, 9, 10, 11, 12, 17, 18} then Some (4, 0)
      else if tag \<in> {5, 6} then Some (8, 1)
      else if tag \<in> {7, 8, 16, 19, 20} then Some (2, 0)
      else if tag = 15 then Some (3, 0)
      else None)"

function parsePool :: "nat \<Rightarrow> byte list \<Rightarrow> (poolEntry list \<times> byte list) option" where
  "parsePool slots bs =
     (if slots = 0 then Some ([], bs)
      else (case bs of
              [] \<Rightarrow> None
            | t # r \<Rightarrow>
                if t = 1 then
                  (case r of
                     hi # lo # r' \<Rightarrow>
                       if unat hi * 256 + unat lo \<le> length r' then
                         (case parsePool (slots - 1) (drop (unat hi * 256 + unat lo) r') of
                            None \<Rightarrow> None
                          | Some (es, rest) \<Rightarrow>
                              Some (Utf8Entry (take (unat hi * 256 + unat lo) r') # es, rest))
                       else None
                   | _ \<Rightarrow> None)
                else
                  (case payloadLength (unat t) of
                     None \<Rightarrow> None
                   | Some (n, skip) \<Rightarrow>
                       if n \<le> length r then
                         (case parsePool (slots - 1 - skip) (drop n r) of
                            None \<Rightarrow> None
                          | Some (es, rest) \<Rightarrow> Some (FixedEntry (unat t) (take n r) # es, rest))
                       else None)))"
  by pat_completeness auto
termination
  by (relation "measure (\<lambda>(slots, bs). slots)") auto

declare parsePool.simps [simp del]

text \<open>
  A valid class file: the magic number, four bytes of version, the pool count and a
  well-formed pool. The result is the pool and the bytes after it.
\<close>

definition parseClass :: "byte list \<Rightarrow> (poolEntry list \<times> byte list) option" where
  "parseClass content =
     (if 10 \<le> length content \<and> take 4 content = [0xCA, 0xFE, 0xBA, 0xBE]
      then parsePool (unat (content ! 8) * 256 + unat (content ! 9) - 1) (drop 10 content)
      else None)"

text \<open>The texts of the eligible Utf8 entries of a pool, in pool order.\<close>

fun eligibleTexts :: "letter_table \<Rightarrow> poolEntry list \<Rightarrow> jstring list" where
  "eligibleTexts L [] = []"
| "eligibleTexts L (Utf8Entry p # es) =
     (if isValidString L (decode p) then decode p # eligibleTexts L es else eligibleTexts L es)"
| "eligibleTexts L (FixedEntry tag p # es) = eligibleTexts L es"

text \<open>One line per text, the texts numbered from \<open>k\<close> on.\<close>

fun numberedLines :: "(nat \<Rightarrow> jstring \<Rightarrow> jstring) \<Rightarrow> nat \<Rightarrow> jstring list \<Rightarrow> jstring" where
  "numberedLines line k [] = []"
| "numberedLines line k (t # ts) = line k t @ numberedLines line (Suc k) ts"

definition configLineOf :: "nat \<Rightarrow> jstring \<Rightarrow> jstring" where
  "configLineOf k t = configLine (toString10 k) (toJavaUnicode t)"

definition referenceLineOf :: "nat \<Rightarrow> jstring \<Rightarrow> jstring" where
  "referenceLineOf k t = referenceLine (padStart (toString10 k) 5 32) (toJavaUnicode t)"

text \<open>
  The pool as the assembler is to write it: every entry as it stands in the original,
  but an eligible Utf8 entry whose stableId has a replacement with the length and the
  bytes of the replacement.
\<close>

definition utf8Bytes_of :: "byte list \<Rightarrow> byte list" where
  "utf8Bytes_of p = 1 # writeU2 (length p) @ p"

fun assembledPool :: "letter_table \<Rightarrow> (nat \<rightharpoonup> jstring) \<Rightarrow> nat \<Rightarrow> poolEntry list \<Rightarrow> byte list" where
  "assembledPool L R k [] = []"
| "assembledPool L R k (Utf8Entry p # es) =
     (if isValidString L (decode p) then
        (case R k of
           Some t \<Rightarrow> utf8Bytes_of (encode t)
         | None \<Rightarrow> utf8Bytes_of p) @ assembledPool L R (Suc k) es
      else utf8Bytes_of p @ assembledPool L R k es)"
| "assembledPool L R k (FixedEntry tag p # es) = of_nat tag # p @ assembledPool L R k es"

text \<open>The bytes of a pool as they stand in the file.\<close>

fun entryBytes :: "poolEntry \<Rightarrow> byte list" where
  "entryBytes (Utf8Entry p) = utf8Bytes_of p"
| "entryBytes (FixedEntry tag p) = of_nat tag # p"

definition poolBytes :: "poolEntry list \<Rightarrow> byte list" where
  "poolBytes es = concat (map entryBytes es)"

text \<open>
  \<open>okClass\<close>: the scenario of the specification, a pool of count 3 with the Utf8 entry
  \<open>OK\<close> and the Integer entry 1, and two more bytes after the pool.
  \<open>modifiedUtf8Class\<close>: a pool with the Utf8 entry \<open>OK\<close> followed by the bytes
  \<open>C0 80\<close>, the way a class file writes the character U+0000.
\<close>

definition okClass :: "byte list" where
  "okClass = classHeader 3 @ [1, 0, 2] @ asciiBytes ''OK'' @ [3, 0, 0, 0, 1] @ [0xAA, 0xBB]"

definition modifiedUtf8Class :: "byte list" where
  "modifiedUtf8Class = classHeader 2 @ [1, 0, 4, 0x4F, 0x4B, 0xC0, 0x80]"

subsection \<open>The pattern of a reference line\<close>

text \<open>
  The pattern of the regular expression: \<open>str_\<close>, optional white space, digits,
  optional white space, \<open>|\<close>, optional white space, and a value between double quotes. A
  value is a run of units other than quote and backslash, and of backslashes each
  followed by one more unit that is no line terminator (the \<open>.\<close> of the regular
  expression matches none). A line matches when the pattern occurs somewhere in it.
\<close>

fun isValueBody :: "jstring \<Rightarrow> bool" where
  "isValueBody [] = True"
| "isValueBody (c # cs) =
     (if c = 34 then False
      else if c = 92 then (case cs of [] \<Rightarrow> False | d # r \<Rightarrow> \<not> isLineTerminator d \<and> isValueBody r)
      else isValueBody cs)"

definition matchesReferencePattern :: "jstring \<Rightarrow> jstring \<Rightarrow> jstring \<Rightarrow> bool" where
  "matchesReferencePattern line ds v =
     (\<exists>pre ws1 ws2 ws3 post.
        line = pre @ js ''str_'' @ ws1 @ ds @ ws2 @ [124] @ ws3 @ [34] @ v @ [34] @ post
        \<and> list_all isSpace ws1 \<and> list_all isSpace ws2 \<and> list_all isSpace ws3
        \<and> ds \<noteq> [] \<and> list_all isDigit ds \<and> isValueBody v)"

text \<open>
  The pattern of an edit line likewise: \<open>str_\<close>, digits, optional white space, \<open>=\<close>,
  optional white space, and a value between double quotes, somewhere in the line.
\<close>

definition matchesEditPattern :: "jstring \<Rightarrow> jstring \<Rightarrow> jstring \<Rightarrow> bool" where
  "matchesEditPattern line ds v =
     (\<exists>pre ws1 ws2 post.
        line = pre @ js ''str_'' @ ds @ ws1 @ [61] @ ws2 @ [34] @ v @ [34] @ post
        \<and> list_all isSpace ws1 \<and> list_all isSpace ws2
        \<and> ds \<noteq> [] \<and> list_all isDigit ds \<and> isValueBody v)"

text \<open>
  The pattern beginning at unit \<open>n\<close> of the line, and the leftmost occurrence: the one no
  other occurrence begins before.
\<close>

definition referencePatternAt :: "nat \<Rightarrow> jstring \<Rightarrow> jstring \<Rightarrow> jstring \<Rightarrow> bool" where
  "referencePatternAt n line ds v =
     (n \<le> length line
      \<and> (\<exists>ws1 ws2 ws3 post.
            drop n line = js ''str_'' @ ws1 @ ds @ ws2 @ [124] @ ws3 @ [34] @ v @ [34] @ post
            \<and> list_all isSpace ws1 \<and> list_all isSpace ws2 \<and> list_all isSpace ws3
            \<and> ds \<noteq> [] \<and> list_all isDigit ds \<and> isValueBody v))"

definition leftmostReferenceMatch :: "jstring \<Rightarrow> jstring \<Rightarrow> jstring \<Rightarrow> bool" where
  "leftmostReferenceMatch line ds v =
     (\<exists>n. referencePatternAt n line ds v
          \<and> (\<forall>m < n. \<forall>ds' v'. \<not> referencePatternAt m line ds' v'))"

text \<open>
  The pattern as the specification words it: the value is any run of units with no
  unescaped quote, a backslash escaping whatever unit follows it.
\<close>

fun claimedValue :: "jstring \<Rightarrow> bool" where
  "claimedValue [] = True"
| "claimedValue (c # cs) =
     (if c = 34 then False
      else if c = 92 then (case cs of [] \<Rightarrow> False | d # r \<Rightarrow> claimedValue r)
      else claimedValue cs)"

definition matchesClaimedPattern :: "jstring \<Rightarrow> jstring \<Rightarrow> jstring \<Rightarrow> bool" where
  "matchesClaimedPattern line ds v =
     (\<exists>pre ws1 ws2 ws3 post.
        line = pre @ js ''str_'' @ ws1 @ ds @ ws2 @ [124] @ ws3 @ [34] @ v @ [34] @ post
        \<and> list_all isSpace ws1 \<and> list_all isSpace ws2 \<and> list_all isSpace ws3
        \<and> ds \<noteq> [] \<and> list_all isDigit ds \<and> claimedValue v)"

text \<open>
  A text is its lines joined by line feeds; \<open>convertedLine\<close> is what the conversion emits
  for one line.
\<close>

fun joinLines :: "jstring list \<Rightarrow> jstring" where
  "joinLines [] = []"
| "joinLines [l] = l"
| "joinLines (l # l' # ls) = l @ 10 # joinLines (l' # ls)"

definition convertedLine :: "jstring \<Rightarrow> jstring" where
  "convertedLine line = (case refSearch line of Some (ident, v) \<Rightarrow> configLine ident v | None \<Rightarrow> [])"

text \<open>
  Sample lines: one in which the pattern occurs twice, the first value holding an
  escaped quote; one whose value holds a backslash followed by a carriage return; and a
  reference text of four lines.
\<close>

definition twoMatchesLine :: jstring where
  \<open>twoMatchesLine = js ''x str_7|"a'' @ [92, 34] @ js ''b" str_8 | "c"''\<close>

definition escapedReturnLine :: jstring where
  \<open>escapedReturnLine = js ''str_1 | "a'' @ [92, 13] @ js ''b"''\<close>

definition referenceSample :: "jstring list" where
  \<open>referenceSample =
     [js ''# ID    | Value (UTF-8)'', js ''str_    3 | "Cancel"'', js ''str_    3 "Cancel"'',
      twoMatchesLine]\<close>

subsection \<open>Round trip\<close>

text \<open>
  A pool is re-encodable when the payload of every eligible Utf8 entry is what
  \<open>TextEncoder\<close> writes for the text \<open>TextDecoder\<close> reads from it. Every ASCII
  payload is so; a payload in which the decoder replaces or drops bytes is not: an
  ill-formed sequence, such as the \<open>C0 80\<close> of Java's modified UTF-8, or a byte order
  mark at the start.
\<close>

fun reencodable :: "letter_table \<Rightarrow> poolEntry list \<Rightarrow> bool" where
  "reencodable L [] = True"
| "reencodable L (Utf8Entry p # es) =
     ((isValidString L (decode p) \<longrightarrow> encode (decode p) = p) \<and> reencodable L es)"
| "reencodable L (FixedEntry tag p # es) = reencodable L es"

text \<open>
  Well-formed UTF-8 as in Table 3-7 of the Unicode standard: the byte sequences of the
  scalar values, with no overlong form, no surrogate and nothing above U+10FFFF. A
  payload is standard when its bytes are well formed and do not start with a byte
  order mark, which the decoder drops.
\<close>

definition isContinuation :: "nat \<Rightarrow> bool" where
  "isContinuation b = (0x80 \<le> b \<and> b \<le> 0xBF)"

fun wellFormedUtf8 :: "nat list \<Rightarrow> bool" where
  "wellFormedUtf8 [] = True"
| "wellFormedUtf8 (b0 # bs) =
     (if b0 \<le> 0x7F then wellFormedUtf8 bs
      else if 0xC2 \<le> b0 \<and> b0 \<le> 0xDF then
        (case bs of
           b1 # r \<Rightarrow> isContinuation b1 \<and> wellFormedUtf8 r
         | _ \<Rightarrow> False)
      else if 0xE0 \<le> b0 \<and> b0 \<le> 0xEF then
        (case bs of
           b1 # b2 # r \<Rightarrow>
             (if b0 = 0xE0 then 0xA0 else 0x80) \<le> b1 \<and> b1 \<le> (if b0 = 0xED then 0x9F else 0xBF)
             \<and> isContinuation b2 \<and> wellFormedUtf8 r
         | _ \<Rightarrow> False)
      else if 0xF0 \<le> b0 \<and> b0 \<le> 0xF4 then
        (case bs of
           b1 # b2 # b3 # r \<Rightarrow>
             (if b0 = 0xF0 then 0x90 else 0x80) \<le> b1 \<and> b1 \<le> (if b0 = 0xF4 then 0x8F else 0xBF)
             \<and> isContinuation b2 \<and> isContinuation b3 \<and> wellFormedUtf8 r
         | _ \<Rightarrow> False)
      else False)"

text \<open>The encoder applied to the text the decoder makes of code points.\<close>

definition reencodeAll :: "nat list \<Rightarrow> nat list" where
  "reencodeAll cps = concat (map (utf8Bytes \<circ> scalarValue) (code_points (concat (map toUTF16 cps))))"

definition standardUtf8 :: "byte list \<Rightarrow> bool" where
  "standardUtf8 p = (wellFormedUtf8 (map unat p) \<and> take 3 (map unat p) \<noteq> [0xEF, 0xBB, 0xBF])"

fun standardPool :: "poolEntry list \<Rightarrow> bool" where
  "standardPool [] = True"
| "standardPool (Utf8Entry p # es) = (standardUtf8 p \<and> standardPool es)"
| "standardPool (FixedEntry tag p # es) = standardPool es"

text \<open>A config line without its line feed, and the lines of the texts numbered from \<open>k\<close>.\<close>

definition bareConfigLine :: "jstring \<Rightarrow> jstring \<Rightarrow> jstring" where
  "bareConfigLine ident v = js ''str_'' @ ident @ js '' = '' @ [34] @ v @ [34]"

fun bareLines :: "nat \<Rightarrow> jstring list \<Rightarrow> jstring list" where
  "bareLines k [] = []"
| "bareLines k (t # ts) = bareConfigLine (toString10 k) (toJavaUnicode t) # bareLines (Suc k) ts"

section \<open>The magic header\<close>

lemma be_step: "d < 256 \<Longrightarrow> (x * 256 + d = n) = (x = n div 256 \<and> d = n mod (256::nat))"
  by auto

lemma magic_value:
  assumes "a < 256" "b < 256" "c < 256" "d < (256::nat)"
  shows "(((a * 256 + b) * 256 + c) * 256 + d = 0xCAFEBABE)
       = (a = 0xCA \<and> b = 0xFE \<and> c = 0xBA \<and> d = 0xBE)"
proof -
  have "(((a * 256 + b) * 256 + c) * 256 + d = 0xCAFEBABE)
      = (a * 256 + b = 0xCAFEBABE div 256 div 256 \<and> c = 0xCAFEBABE div 256 mod 256
         \<and> d = 0xCAFEBABE mod 256)"
    by (simp only: be_step [OF assms(4)] be_step [OF assms(3)] conj_assoc)
  also have "\<dots> = (a = 0xCA \<and> b = 0xFE \<and> c = 0xBA \<and> d = 0xBE)"
    using be_step [OF assms(2), of a "0xCAFE"] by simp
  finally show ?thesis .
qed

lemma unat_byte_lt: "unat (x :: byte) < 256"
  using unsigned_less [of x, where 'a = nat] by simp

lemma unat_byte_magic:
  "(unat (x :: byte) = 0xCA) = (x = 0xCA)" "(unat (x :: byte) = 0xFE) = (x = 0xFE)"
  "(unat (x :: byte) = 0xBA) = (x = 0xBA)" "(unat (x :: byte) = 0xBE) = (x = 0xBE)"
  by (auto simp: word_unat_eq_iff)

lemma getUint32_short: "length content < 4 \<Longrightarrow> getUint32 content 0 = Inl RangeError"
  by (simp add: getUint32_def)

lemma length_ge4: "4 \<le> length xs \<Longrightarrow> \<exists>a b c d r. xs = a # b # c # d # r"
  by (cases xs; simp; rename_tac x1 l1; case_tac l1; simp; rename_tac x2 l2; case_tac l2; simp;
      rename_tac x3 l3; case_tac l3; simp)

lemma getUint32_magic:
  assumes "4 \<le> length content"
  shows "getUint32 content 0 = Inr 0xCAFEBABE \<longleftrightarrow> take 4 content = [0xCA, 0xFE, 0xBA, 0xBE]"
proof -
  obtain a b c d r where content: "content = a # b # c # d # r"
    using length_ge4 [OF assms] by blast
  show ?thesis
    using magic_value [OF unat_byte_lt unat_byte_lt unat_byte_lt unat_byte_lt, of a b c d]
    by (simp add: getUint32_def content unat_byte_magic)
qed

lemma getUint32_Inr: "4 \<le> length content \<Longrightarrow> \<exists>m. getUint32 content 0 = Inr m"
  by (simp add: getUint32_def)

text \<open>
  Claim C10. A buffer of fewer than four bytes makes the read of the magic number,
  \<open>view.getUint32(0)\<close>, throw \<open>RangeError\<close> in \<open>extractStringsFromClass\<close>,
  \<open>extractReadableStrings\<close> and \<open>assembleClassFile\<close> alike: the comparison with
  \<open>0xCAFEBABE\<close> is not reached, and the outcome is neither of the two error reports for
  a wrong magic number (the returned text of the extractor, the \<open>Error\<close> of the
  assembler) nor one for an unknown tag, which are no \<open>RangeError\<close>.
\<close>

theorem short_buffer_throws_RangeError:
  assumes "length content < 4"
  shows "getUint32 content 0 = Inl RangeError
     \<and> extractStringsFromClass L content fileName = Inl RangeError
     \<and> extractReadableStrings L content = Inl RangeError
     \<and> assembleClassFile L content editorText = Inl RangeError"
  using assms
  by (simp add: getUint32_short extractStringsFromClass_def extractWalk_def
      extractReadableStrings_def assembleClassFile_def assembleWalk_def)

theorem short_buffer_throws_RangeError_witness:
  "length [0xCA, 0xFE, 0xBA :: byte] < 4
   \<and> extractStringsFromClass asciiLetters [0xCA, 0xFE, 0xBA] (js ''A.class'') = Inl RangeError
   \<and> extractReadableStrings asciiLetters [0xCA, 0xFE, 0xBA] = Inl RangeError
   \<and> assembleClassFile asciiLetters [0xCA, 0xFE, 0xBA] [] = Inl RangeError"
  using short_buffer_throws_RangeError [of "[0xCA, 0xFE, 0xBA]" asciiLetters "js ''A.class''" "[]"]
  by simp

text \<open>
  Claim C4. A buffer that has four first bytes and they are not \<open>CA FE BA BE\<close>: the
  extractor returns its report of a wrong magic number and nothing else (no header, no
  line, no Utf8 entry visited), and the assembler throws \<open>Error("Invalid Magic Header")\<close>
  with no buffer built. The extractor reports the error as its returned text; the
  assembler throws.
\<close>

theorem wrong_magic_is_InvalidFormat:
  assumes "4 \<le> length content" and "take 4 content \<noteq> [0xCA, 0xFE, 0xBA, 0xBE]"
  shows "extractStringsFromClass L content fileName = Inr invalidClassMessage
     \<and> extractVisits L content fileName = []
     \<and> assembleClassFile L content editorText = Inl (Error (js ''Invalid Magic Header''))
     \<and> assembleVisits L content editorText = []"
proof -
  obtain m where m: "getUint32 content 0 = Inr m"
    using getUint32_Inr [OF assms(1)] by blast
  have "m \<noteq> 0xCAFEBABE"
    using getUint32_magic [OF assms(1)] assms(2) m by auto
  then show ?thesis
    by (simp add: m extractStringsFromClass_def extractVisits_def extractWalk_def
        assembleClassFile_def assembleVisits_def assembleWalk_def)
qed

theorem wrong_magic_is_InvalidFormat_witness:
  "4 \<le> length [0, 0, 0, 0, 0, 0, 0, 0x34 :: byte]
   \<and> take 4 [0, 0, 0, 0, 0, 0, 0, 0x34 :: byte] \<noteq> [0xCA, 0xFE, 0xBA, 0xBE]
   \<and> extractStringsFromClass asciiLetters [0, 0, 0, 0, 0, 0, 0, 0x34] (js ''A.class'')
       = Inr invalidClassMessage
   \<and> assembleClassFile asciiLetters [0, 0, 0, 0, 0, 0, 0, 0x34] (js ''str_0 = x'')
       = Inl (Error (js ''Invalid Magic Header''))"
  using wrong_magic_is_InvalidFormat
    [of "[0, 0, 0, 0, 0, 0, 0, 0x34]" asciiLetters "js ''A.class''" "js ''str_0 = x''"]
  by simp

section \<open>Evaluating the model on a given buffer\<close>

lemmas text_eval =
  js_def isValidString_def unicodeLetter_def isDigit_def toJavaUnicode_def escapeChar_def
  toString10.simps toString16.simps padStart_def hexDigit_def configHeader_def
  referenceHeader_def configLine_def referenceLine_def

lemmas buffer_eval =
  getUint32_def getUint16_def getUint8_def slice_def decode_def stripBOM_def toUTF16_def
  skipExtract_def skipReadable_def sizeAssemble_def asciiBytes_def classHeader_def
  writeU1_def writeU2_def encode_def utf8Bytes_def scalarValue_def

lemma replicate_numeral: "replicate (numeral k) x = x # replicate (pred_numeral k) x"
  by (simp add: numeral_eq_Suc)

section \<open>The eligibility filter\<close>

lemma startsWith_prefix: "startsWith t p = prefix p t"
  by (induction t p rule: startsWith.induct) auto

lemma includes_str_sublist: "includes_str t p = sublist p t"
  by (induction t) (auto simp: startsWith_prefix sublist_Cons_right)

lemma isValidString_iff: "isValidString L t = (\<not> rejectedText L t)"
  by (auto simp: isValidString_def rejectedText_def startsWith_prefix includes_str_sublist
      list_ex_iff)

lemma filterClass_config:
  "extractStringsFromClass L filterClass fileName
   = Inr (configHeader fileName @ configLine (js ''0'') (js ''Hello World''))"
  by (simp add: extractStringsFromClass_def extractWalk_def filterClass_def extractLoop.simps
      text_eval buffer_eval)

lemma filterClass_visits:
  "extractVisits L filterClass fileName = [Visit 1 13 None, Visit 2 34 (Some 0)]"
  by (simp add: extractVisits_def extractWalk_def filterClass_def extractLoop.simps
      text_eval buffer_eval)

lemma filterClass_reference:
  "extractReadableStrings L filterClass
   = Inr (referenceHeader @ referenceLine (js ''    0'') (js ''Hello World''))"
  by (simp add: extractReadableStrings_def filterClass_def readableLoop.simps
      text_eval buffer_eval replicate_numeral)

text \<open>
  Claim C6. \<open>isValidString\<close> rejects a text exactly on the seven grounds of the
  specification: fewer than two code units; starting with \<open>Ljava/\<close>; starting with
  \<open>(\<close> and containing \<open>)\<close>; containing \<open>()V\<close>; containing \<open>Exception\<close>; starting
  with \<open>META-INF/\<close>; no code point that is a letter or one of the digits \<open>0-9\<close>. So
  \<open>Ljava/lang/String;\<close> is rejected and \<open>Hello World\<close> accepted; in a pool that holds
  both, the first gets no stableId and the second gets \<open>0\<close> and its line in the config
  text and in the reference text.
\<close>

theorem isValidString_filter:
  "isValidString L t = (\<not> rejectedText L t)
   \<and> \<not> isValidString L (js ''Ljava/lang/String;'')
   \<and> isValidString L (js ''Hello World'')
   \<and> extractVisits L filterClass fileName = [Visit 1 13 None, Visit 2 34 (Some 0)]
   \<and> extractStringsFromClass L filterClass fileName
       = Inr (configHeader fileName @ configLine (js ''0'') (js ''Hello World''))
   \<and> extractReadableStrings L filterClass
       = Inr (referenceHeader @ referenceLine (js ''    0'') (js ''Hello World''))"
proof -
  have "\<not> isValidString L (js ''Ljava/lang/String;'')"
    by (simp add: text_eval)
  moreover have "isValidString L (js ''Hello World'')"
    by (simp add: text_eval)
  ultimately show ?thesis
    by (simp add: isValidString_iff filterClass_visits filterClass_config filterClass_reference)
qed

theorem isValidString_filter_witness:
  "isValidString asciiLetters (js ''OK'') \<and> \<not> rejectedText asciiLetters (js ''OK'')
   \<and> \<not> isValidString asciiLetters (js ''(I)V'') \<and> rejectedText asciiLetters (js ''(I)V'')
   \<and> \<not> isValidString asciiLetters (js ''--'') \<and> rejectedText asciiLetters (js ''--'')"
proof -
  have "isValidString asciiLetters (js ''OK'')" "\<not> isValidString asciiLetters (js ''(I)V'')"
    "\<not> isValidString asciiLetters (js ''--'')"
    by (simp_all add: text_eval)
  then show ?thesis
    using isValidString_filter [of asciiLetters "js ''OK''"]
      isValidString_filter [of asciiLetters "js ''(I)V''"]
      isValidString_filter [of asciiLetters "js ''--''"]
    by simp
qed

section \<open>The two walks hand out the same stableIds\<close>

lemma skipExtract_sizeAssemble: "skipExtract tag = sizeAssemble tag"
  by (simp add: skipExtract_def sizeAssemble_def)

lemma loops_same_visits:
  "fst (extractLoop L content cpCount i off k out lg)
   = fst (assembleLoop L R content cpCount i off k newBytes lg)"
proof (induction L content cpCount i off k out lg arbitrary: newBytes rule: extractLoop.induct)
  case (1 L content cpCount i offset stringIndex out lg)
  show ?case
    apply (subst extractLoop.simps)
    apply (subst assembleLoop.simps)
    using 1
    apply (auto simp: Let_def skipExtract_sizeAssemble split: sum.splits option.splits)
    done
qed

lemma walks_same_visits: "extractVisits L content fileName = assembleVisits L content editorText"
proof (cases "getUint32 content 0")
  case (Inl e)
  then show ?thesis
    by (simp add: extractVisits_def assembleVisits_def extractWalk_def assembleWalk_def)
next
  case magic: (Inr m)
  show ?thesis
  proof (cases "getUint16 content 8")
    case (Inl e)
    then show ?thesis
      using magic
      by (simp add: extractVisits_def assembleVisits_def extractWalk_def assembleWalk_def)
  next
    case (Inr cpCount)
    have "fst (case assembleLoop L R content cpCount 1 10 0 nb [] of
                 (lg, Inl e) \<Rightarrow> (lg, Inl e)
               | (lg, Inr (off, newBytes)) \<Rightarrow> (lg, Inr (newBytes @ drop off content)))
          = fst (assembleLoop L R content cpCount 1 10 0 nb [])" for R nb
      by (auto split: prod.splits sum.splits)
    then show ?thesis
      using magic Inr
        loops_same_visits [of L content cpCount 1 10 0 "configHeader fileName" "[]"
          "parseReplacements editorText" "copyHeader content @ writeU2 cpCount"]
      by (simp add: extractVisits_def assembleVisits_def extractWalk_def assembleWalk_def)
  qed
qed

lemma assignedIds_append [simp]: "assignedIds (xs @ ys) = assignedIds xs @ assignedIds ys"
  by (simp add: assignedIds_def)

lemma assignedIds_single [simp]:
  "assignedIds [Visit i off (Some k)] = [k]" "assignedIds [Visit i off None] = []"
  by (simp_all add: assignedIds_def)

lemma extractLoop_sequential:
  "assignedIds lg = [0..<k] \<Longrightarrow>
   \<exists>n. assignedIds (fst (extractLoop L content cpCount i off k out lg)) = [0..<n]"
proof (induction L content cpCount i off k out lg rule: extractLoop.induct)
  case (1 L content cpCount i offset stringIndex out lg)
  show ?case
    apply (subst extractLoop.simps)
    using 1
    apply (auto simp: Let_def split: sum.splits option.splits)
    done
qed

lemma extractVisits_sequential:
  "assignedIds (extractVisits L content fileName)
   = [0..<length (assignedIds (extractVisits L content fileName))]"
proof -
  have "\<exists>m. assignedIds (extractVisits L content fileName) = [0..<m]"
    using extractLoop_sequential [of "[]" 0 L content _ 1 10 "configHeader fileName"]
    by (auto simp: extractVisits_def extractWalk_def assignedIds_def split: sum.splits
        intro: exI [of _ 0])
  then obtain m where m: "assignedIds (extractVisits L content fileName) = [0..<m]"
    by blast
  show ?thesis by (simp add: m)
qed

section \<open>Unknown tags\<close>

text \<open>
  Claim C5. At an unknown tag the extractor returns its report and the assembler throws,
  both at the entry where the tag stands. The walk of the reference view does neither:
  its \<open>switch\<close> has no \<open>default\<close>, so it steps over the tag byte alone and goes on. On
  \<open>unknownTagClass\<close> it reads the bytes after the tag 2 as a Utf8 entry and returns a
  reference text with the line of \<open>OK\<close>, where the other two functions stop.
\<close>

theorem readable_walk_skips_unknown_tag:
  "extractStringsFromClass L unknownTagClass fileName = Inr (unknownTagMessage 2 11)
   \<and> assembleClassFile L unknownTagClass editorText = Inl (unknownTagError 2)
   \<and> extractReadableStrings L unknownTagClass
       = Inr (referenceHeader @ referenceLine (js ''    0'') (js ''OK''))"
proof -
  have "extractStringsFromClass L unknownTagClass fileName = Inr (unknownTagMessage 2 11)"
    by (simp add: extractStringsFromClass_def extractWalk_def unknownTagClass_def
        extractLoop.simps buffer_eval)
  moreover have "assembleClassFile L unknownTagClass editorText = Inl (unknownTagError 2)"
    by (simp add: assembleClassFile_def assembleWalk_def unknownTagClass_def
        assembleLoop.simps buffer_eval)
  moreover have "extractReadableStrings L unknownTagClass
       = Inr (referenceHeader @ referenceLine (js ''    0'') (js ''OK''))"
    by (simp add: extractReadableStrings_def unknownTagClass_def readableLoop.simps
        text_eval buffer_eval replicate_numeral)
  ultimately show ?thesis by simp
qed

text \<open>
  What the extractor and the assembler do at any unknown tag, for every buffer and
  every state of the walk: the report, respectively the exception, with the log as it
  stood.
\<close>

lemma extractLoop_unknown_tag:
  assumes "i < cpCount" and "getUint8 content off = Inr tag"
    and "tag \<noteq> CONSTANT_Utf8" and "skipExtract tag = None"
  shows "extractLoop L content cpCount i off k out lg
         = (lg, Inr (unknownTagMessage tag (off + 1)))"
  using assms by (subst extractLoop.simps) simp

lemma assembleLoop_unknown_tag:
  assumes "i < cpCount" and "getUint8 content off = Inr tag"
    and "tag \<noteq> CONSTANT_Utf8" and "sizeAssemble tag = None"
  shows "assembleLoop L R content cpCount i off k newBytes lg = (lg, Inl (unknownTagError tag))"
  using assms by (subst assembleLoop.simps) simp

lemma readableLoop_unknown_tag:
  assumes "i < cpCount" and "getUint8 content off = Inr tag"
    and "tag \<noteq> CONSTANT_Utf8" and "skipExtract tag = None"
  shows "readableLoop L content cpCount i off k out
         = readableLoop L content cpCount (i + 1) (off + 1) k out"
proof -
  have "skipReadable tag = (0, 0)"
    using assms(4) by (auto simp: skipExtract_def skipReadable_def split: if_splits)
  then show ?thesis
    using assms(1-3) by (subst readableLoop.simps) simp
qed

section \<open>The walks on a well-formed class file\<close>

lemma drop_Cons_nth:
  assumes "drop n xs = y # ys"
  shows "n < length xs" "xs ! n = y" "drop (Suc n) xs = ys"
proof -
  show n: "n < length xs"
    using assms by (cases "n < length xs") auto
  show "xs ! n = y"
    using assms by (rule nth_via_drop)
  show "drop (Suc n) xs = ys"
    using assms by (metis drop_Suc tl_drop list.sel(3))
qed

lemma drop_append_shift:
  assumes "drop n xs = ys @ zs"
  shows "drop (n + length ys) xs = zs" "take (length ys) (drop n xs) = ys"
proof -
  have "drop (n + length ys) xs = drop (length ys) (drop n xs)"
    by (simp add: add.commute)
  then show "drop (n + length ys) xs = zs"
    by (simp add: assms)
  show "take (length ys) (drop n xs) = ys"
    by (simp add: assms)
qed

lemma getUint8_drop: "drop off B = t # r \<Longrightarrow> getUint8 B off = Inr (unat t)"
  using drop_Cons_nth [of off B t r] by (simp add: getUint8_def)

lemma getUint16_drop:
  assumes "drop off B = hi # lo # r"
  shows "getUint16 B off = Inr (unat hi * 256 + unat lo)"
proof -
  have 1: "off < length B" "B ! off = hi" "drop (Suc off) B = lo # r"
    using drop_Cons_nth [OF assms] by auto
  have 2: "Suc off < length B" "B ! Suc off = lo"
    using drop_Cons_nth [OF 1(3)] by auto
  show ?thesis
    using 1 2 by (simp add: getUint16_def)
qed

lemma slice_drop: "slice B off (off + n) = take n (drop off B)"
  by (simp add: slice_def)

lemma unat_byte_one: "(unat (t :: byte) = 1) = (t = 1)"
  by (auto simp: word_unat_eq_iff)

lemma parsePool_NilD: "parsePool s bs = Some ([], rest) \<Longrightarrow> s = 0 \<and> rest = bs"
  by (subst (asm) parsePool.simps) (auto split: if_splits list.splits option.splits)

lemma parsePool_Utf8E:
  assumes "parsePool s bs = Some (Utf8Entry p # es, rest)"
  obtains hi lo r where "0 < s" "bs = 1 # hi # lo # p @ r" "length p = unat hi * 256 + unat lo"
    "parsePool (s - 1) r = Some (es, rest)"
proof -
  from assms have "0 < s"
    by (subst (asm) parsePool.simps) (auto split: if_splits)
  with assms obtain hi lo r' where bs: "bs = 1 # hi # lo # r'"
    and len: "unat hi * 256 + unat lo \<le> length r'"
    and p: "p = take (unat hi * 256 + unat lo) r'"
    and rec: "parsePool (s - 1) (drop (unat hi * 256 + unat lo) r') = Some (es, rest)"
    by (subst (asm) parsePool.simps) (auto split: if_splits list.splits option.splits)
  show ?thesis
  proof (rule that [OF \<open>0 < s\<close> _ _ rec])
    show "bs = 1 # hi # lo # p @ drop (unat hi * 256 + unat lo) r'"
      by (simp add: bs p)
    show "length p = unat hi * 256 + unat lo"
      using len by (simp add: p)
  qed
qed

lemma parsePool_FixedE:
  assumes "parsePool s bs = Some (FixedEntry tag p # es, rest)"
  obtains t r skip where "0 < s" "bs = t # p @ r" "unat t = tag" "tag \<noteq> 1"
    "payloadLength tag = Some (length p, skip)" "parsePool (s - 1 - skip) r = Some (es, rest)"
proof -
  from assms have "0 < s"
    by (subst (asm) parsePool.simps) (auto split: if_splits)
  with assms obtain t r' n skip where bs: "bs = t # r'" and t: "t \<noteq> 1" "unat t = tag"
    and pl: "payloadLength (unat t) = Some (n, skip)" and len: "n \<le> length r'"
    and p: "p = take n r'" and rec: "parsePool (s - 1 - skip) (drop n r') = Some (es, rest)"
    by (subst (asm) parsePool.simps) (auto split: if_splits list.splits option.splits)
  show ?thesis
  proof (rule that [OF \<open>0 < s\<close> _ t(2) _ _ rec])
    show "bs = t # p @ drop n r'" by (simp add: bs p)
    show "tag \<noteq> 1" using t unat_byte_one [of t] by auto
    show "payloadLength tag = Some (length p, skip)"
      using pl len t by (simp add: p min_def)
  qed
qed

lemma utf8_at:
  assumes "drop off B = 1 # hi # lo # p @ r" and "length p = unat hi * 256 + unat lo"
  shows "getUint8 B off = Inr 1" "getUint16 B (off + 1) = Inr (length p)"
    "slice B (off + 3) (off + 3 + length p) = p" "drop (off + 3 + length p) B = r"
proof -
  show "getUint8 B off = Inr 1"
    using getUint8_drop [OF assms(1)] by simp
  have d1: "drop (Suc off) B = hi # lo # p @ r"
    using drop_Cons_nth(3) [OF assms(1)] .
  show "getUint16 B (off + 1) = Inr (length p)"
    using getUint16_drop [OF d1] assms(2) by simp
  have "drop (off + 3) B = drop 3 (drop off B)"
    by (simp add: add.commute)
  then have d3: "drop (off + 3) B = p @ r"
    by (simp add: assms(1))
  show "slice B (off + 3) (off + 3 + length p) = p"
    by (simp add: slice_drop d3)
  show "drop (off + 3 + length p) B = r"
    using drop_append_shift(1) [OF d3] .
qed

lemma fixed_at:
  assumes "drop off B = t # p @ r"
  shows "getUint8 B off = Inr (unat t)" "slice B (off + 1) (off + 1 + length p) = p"
    "drop (off + 1 + length p) B = r"
proof -
  show "getUint8 B off = Inr (unat t)"
    using getUint8_drop [OF assms] .
  have d1: "drop (off + 1) B = p @ r"
    using drop_Cons_nth(3) [OF assms] by simp
  show "slice B (off + 1) (off + 1 + length p) = p"
    using d1 by (simp add: slice_def)
  show "drop (off + 1 + length p) B = r"
    using drop_append_shift(1) [OF d1] .
qed

lemma skipExtract_payloadLength: "skipExtract tag = payloadLength tag"
  by (simp add: skipExtract_def payloadLength_def)

lemma sizeAssemble_payloadLength: "sizeAssemble tag = payloadLength tag"
  by (simp add: sizeAssemble_def payloadLength_def)

lemma skipReadable_payloadLength: "payloadLength tag = Some x \<Longrightarrow> skipReadable tag = x"
  by (auto simp: skipReadable_def payloadLength_def split: if_splits)

lemma extractLoop_parsed:
  "parsePool (cpCount - i) (drop off B) = Some (es, rest) \<Longrightarrow>
   snd (extractLoop L B cpCount i off k out lg)
   = Inr (out @ numberedLines configLineOf k (eligibleTexts L es))"
proof (induction es arbitrary: i off k out lg)
  case Nil
  then have "\<not> i < cpCount"
    using parsePool_NilD by fastforce
  then show ?case
    by (subst extractLoop.simps) simp
next
  case (Cons e es)
  show ?case
  proof (cases e)
    case (Utf8Entry p)
    with Cons.prems obtain hi lo r where s: "0 < cpCount - i"
      and bs: "drop off B = 1 # hi # lo # p @ r" and len: "length p = unat hi * 256 + unat lo"
      and rec: "parsePool (cpCount - i - 1) r = Some (es, rest)"
      by (auto elim: parsePool_Utf8E)
    note at = utf8_at [OF bs len]
    have next_state: "parsePool (cpCount - (i + 1)) (drop (off + 3 + length p) B) = Some (es, rest)"
      using rec at(4) by simp
    have line: "configLine (toString10 k) (toJavaUnicode (decode p)) = configLineOf k (decode p)"
      by (simp add: configLineOf_def)
    show ?thesis
      using s at(1,2,3) Cons.IH [OF next_state]
      by (subst extractLoop.simps) (simp add: Utf8Entry Let_def line)
  next
    case (FixedEntry tag p)
    with Cons.prems obtain t r skip where s: "0 < cpCount - i"
      and bs: "drop off B = t # p @ r" and t: "unat t = tag" "tag \<noteq> 1"
      and pl: "payloadLength tag = Some (length p, skip)"
      and rec: "parsePool (cpCount - i - 1 - skip) r = Some (es, rest)"
      by (auto elim: parsePool_FixedE)
    note at = fixed_at [OF bs]
    have next_state:
      "parsePool (cpCount - (i + skip + 1)) (drop (off + 1 + length p) B) = Some (es, rest)"
      using rec at(3) by (simp add: algebra_simps)
    show ?thesis
      using s at(1,2) t pl Cons.IH [OF next_state]
      by (subst extractLoop.simps) (simp add: FixedEntry skipExtract_payloadLength)
  qed
qed

lemma readableLoop_parsed:
  "parsePool (cpCount - i) (drop off B) = Some (es, rest) \<Longrightarrow>
   readableLoop L B cpCount i off k out
   = Inr (out @ numberedLines referenceLineOf k (eligibleTexts L es))"
proof (induction es arbitrary: i off k out)
  case Nil
  then have "\<not> i < cpCount"
    using parsePool_NilD by fastforce
  then show ?case
    by (subst readableLoop.simps) simp
next
  case (Cons e es)
  show ?case
  proof (cases e)
    case (Utf8Entry p)
    with Cons.prems obtain hi lo r where s: "0 < cpCount - i"
      and bs: "drop off B = 1 # hi # lo # p @ r" and len: "length p = unat hi * 256 + unat lo"
      and rec: "parsePool (cpCount - i - 1) r = Some (es, rest)"
      by (auto elim: parsePool_Utf8E)
    note at = utf8_at [OF bs len]
    have next_state: "parsePool (cpCount - (i + 1)) (drop (off + 3 + length p) B) = Some (es, rest)"
      using rec at(4) by simp
    have line: "referenceLine (padStart (toString10 k) 5 32) (toJavaUnicode (decode p))
        = referenceLineOf k (decode p)"
      by (simp add: referenceLineOf_def)
    show ?thesis
      using s at(1,2,3) Cons.IH [OF next_state]
      by (subst readableLoop.simps) (simp add: Utf8Entry Let_def line)
  next
    case (FixedEntry tag p)
    with Cons.prems obtain t r skip where s: "0 < cpCount - i"
      and bs: "drop off B = t # p @ r" and t: "unat t = tag" "tag \<noteq> 1"
      and pl: "payloadLength tag = Some (length p, skip)"
      and rec: "parsePool (cpCount - i - 1 - skip) r = Some (es, rest)"
      by (auto elim: parsePool_FixedE)
    note at = fixed_at [OF bs]
    have next_state:
      "parsePool (cpCount - (i + skip + 1)) (drop (off + 1 + length p) B) = Some (es, rest)"
      using rec at(3) by (simp add: algebra_simps)
    show ?thesis
      using s at(1,2) t Cons.IH [OF next_state]
      by (subst readableLoop.simps) (simp add: FixedEntry skipReadable_payloadLength [OF pl])
  qed
qed

lemma nat_and_255: "(n :: nat) AND 255 = n mod 256"
proof -
  have "n AND mask 8 = take_bit 8 n"
    by (simp add: take_bit_eq_mask)
  then show ?thesis
    by (simp add: mask_eq_exp_minus_1 take_bit_eq_mod)
qed

lemma writeU1_eq: "writeU1 v = [of_nat (v mod 256)]"
  by (simp add: writeU1_def nat_and_255)

lemma writeU2_eq: "writeU2 v = [of_nat (v div 256 mod 256), of_nat (v mod 256)]"
  by (simp add: writeU2_def nat_and_255 drop_bit_eq_div)

lemma writeU1_unat: "writeU1 (unat (t :: byte)) = [t]"
  using unat_byte_lt [of t] by (simp add: writeU1_eq)

lemma writeU2_unat: "writeU2 (unat (hi :: byte) * 256 + unat (lo :: byte)) = [hi, lo]"
  using unat_byte_lt [of hi] unat_byte_lt [of lo] by (simp add: writeU2_eq)

lemma length_writeU2 [simp]: "length (writeU2 v) = 2"
  by (simp add: writeU2_def)

lemma poolBytes_simps [simp]:
  "poolBytes [] = []" "poolBytes (e # es) = entryBytes e @ poolBytes es"
  by (simp_all add: poolBytes_def)

lemma length_utf8Bytes_of [simp]: "length (utf8Bytes_of p) = 3 + length p"
  by (simp add: utf8Bytes_of_def)

lemma parsePool_bytes: "parsePool s bs = Some (es, rest) \<Longrightarrow> bs = poolBytes es @ rest"
proof (induction es arbitrary: s bs)
  case Nil
  then show ?case
    using parsePool_NilD by fastforce
next
  case (Cons e es)
  show ?case
  proof (cases e)
    case (Utf8Entry p)
    with Cons.prems obtain hi lo r where bs: "bs = 1 # hi # lo # p @ r"
      and len: "length p = unat hi * 256 + unat lo"
      and rec: "parsePool (s - 1) r = Some (es, rest)"
      by (auto elim: parsePool_Utf8E)
    show ?thesis
      using Cons.IH [OF rec] writeU2_unat [of hi lo]
      by (simp add: Utf8Entry bs len utf8Bytes_of_def)
  next
    case (FixedEntry tag p)
    with Cons.prems obtain t r skip where bs: "bs = t # p @ r" and t: "unat t = tag"
      and rec: "parsePool (s - 1 - skip) r = Some (es, rest)"
      by (auto elim: parsePool_FixedE)
    have "of_nat tag = t"
      using t by auto
    then show ?thesis
      using Cons.IH [OF rec] by (simp add: FixedEntry bs)
  qed
qed

lemma assembleLoop_parsed:
  "parsePool (cpCount - i) (drop off B) = Some (es, rest) \<Longrightarrow>
   snd (assembleLoop L R B cpCount i off k nb lg)
   = Inr (off + length (poolBytes es), nb @ assembledPool L R k es)"
proof (induction es arbitrary: i off k nb lg)
  case Nil
  then have "\<not> i < cpCount"
    using parsePool_NilD by fastforce
  then show ?case
    by (subst assembleLoop.simps) simp
next
  case (Cons e es)
  show ?case
  proof (cases e)
    case (Utf8Entry p)
    with Cons.prems obtain hi lo r where s: "0 < cpCount - i"
      and bs: "drop off B = 1 # hi # lo # p @ r" and len: "length p = unat hi * 256 + unat lo"
      and rec: "parsePool (cpCount - i - 1) r = Some (es, rest)"
      by (auto elim: parsePool_Utf8E)
    note at = utf8_at [OF bs len]
    have next_state: "parsePool (cpCount - (i + 1)) (drop (off + 3 + length p) B) = Some (es, rest)"
      using rec at(4) by simp
    have w1: "writeU1 (Suc 0) = [1]"
      by (simp add: writeU1_eq)
    show ?thesis
      using s at(1,2,3) Cons.IH [OF next_state]
      by (subst assembleLoop.simps)
        (simp add: Utf8Entry Let_def w1 utf8Bytes_of_def split: option.splits)
  next
    case (FixedEntry tag p)
    with Cons.prems obtain t r skip where s: "0 < cpCount - i"
      and bs: "drop off B = t # p @ r" and t: "unat t = tag" "tag \<noteq> 1"
      and pl: "payloadLength tag = Some (length p, skip)"
      and rec: "parsePool (cpCount - i - 1 - skip) r = Some (es, rest)"
      by (auto elim: parsePool_FixedE)
    note at = fixed_at [OF bs]
    have next_state:
      "parsePool (cpCount - (i + skip + 1)) (drop (off + 1 + length p) B) = Some (es, rest)"
      using rec at(3) by (simp add: algebra_simps)
    have w1: "writeU1 tag = [t]" "of_nat tag = t"
      using writeU1_unat [of t] t by auto
    show ?thesis
      using s at(1,2) t pl Cons.IH [OF next_state]
      by (subst assembleLoop.simps)
        (simp add: FixedEntry sizeAssemble_payloadLength w1)
  qed
qed

lemma copyHeader_take: "8 \<le> length B \<Longrightarrow> copyHeader B = take 8 B"
  by (rule nth_equalityI) (auto simp: copyHeader_def)

lemma take10:
  assumes "10 \<le> length B"
  shows "take 8 B @ writeU2 (unat (B ! 8) * 256 + unat (B ! 9)) = take 10 B"
proof -
  have "take 10 B = take 9 B @ [B ! 9]"
    using assms take_Suc_conv_app_nth [of 9 B] by simp
  also have "take 9 B = take 8 B @ [B ! 8]"
    using assms take_Suc_conv_app_nth [of 8 B] by simp
  finally show ?thesis
    by (simp add: writeU2_unat)
qed

lemma parseClass_SomeD:
  assumes "parseClass B = Some (es, rest)"
  shows "10 \<le> length B" "getUint32 B 0 = Inr 0xCAFEBABE"
    "getUint16 B 8 = Inr (unat (B ! 8) * 256 + unat (B ! 9))"
    "parsePool (unat (B ! 8) * 256 + unat (B ! 9) - 1) (drop 10 B) = Some (es, rest)"
proof -
  from assms show len: "10 \<le> length B" and "parsePool (unat (B ! 8) * 256 + unat (B ! 9) - 1) (drop 10 B) = Some (es, rest)"
    by (auto simp: parseClass_def split: if_splits)
  from assms have "take 4 B = [0xCA, 0xFE, 0xBA, 0xBE]"
    by (auto simp: parseClass_def split: if_splits)
  then show "getUint32 B 0 = Inr 0xCAFEBABE"
    using getUint32_magic [of B] len by simp
  show "getUint16 B 8 = Inr (unat (B ! 8) * 256 + unat (B ! 9))"
    using len by (simp add: getUint16_def)
qed

lemma extract_parsed:
  assumes "parseClass B = Some (es, rest)"
  shows "extractStringsFromClass L B fileName
         = Inr (configHeader fileName @ numberedLines configLineOf 0 (eligibleTexts L es))"
  using parseClass_SomeD [OF assms]
    extractLoop_parsed [of "unat (B ! 8) * 256 + unat (B ! 9)" 1 10 B es rest L 0 "configHeader fileName" "[]"]
  by (simp add: extractStringsFromClass_def extractWalk_def)

lemma readable_parsed:
  assumes "parseClass B = Some (es, rest)"
  shows "extractReadableStrings L B
         = Inr (referenceHeader @ numberedLines referenceLineOf 0 (eligibleTexts L es))"
  using parseClass_SomeD [OF assms]
    readableLoop_parsed [of "unat (B ! 8) * 256 + unat (B ! 9)" 1 10 B es rest L 0 referenceHeader]
  by (simp add: extractReadableStrings_def)

lemma assemble_parsed:
  assumes "parseClass B = Some (es, rest)"
  shows "assembleClassFile L B editorText
         = Inr (take 10 B @ assembledPool L (parseReplacements editorText) 0 es @ rest)"
proof -
  note D = parseClass_SomeD [OF assms]
  let ?n = "unat (B ! 8) * 256 + unat (B ! 9)"
  let ?R = "parseReplacements editorText"
  have loop: "snd (assembleLoop L ?R B ?n 1 10 0 (copyHeader B @ writeU2 ?n) [])
      = Inr (10 + length (poolBytes es), (copyHeader B @ writeU2 ?n) @ assembledPool L ?R 0 es)"
    using assembleLoop_parsed [of ?n 1 10 B es rest L ?R 0 "copyHeader B @ writeU2 ?n" "[]"] D(4)
    by simp
  have hdr: "copyHeader B @ writeU2 ?n = take 10 B"
    using D(1) by (simp add: copyHeader_take take10)
  have rest: "drop (10 + length (poolBytes es)) B = rest"
    using drop_append_shift(1) [OF parsePool_bytes [OF D(4)]] .
  obtain lg where "assembleLoop L ?R B ?n 1 10 0 (copyHeader B @ writeU2 ?n) []
      = (lg, Inr (10 + length (poolBytes es), take 10 B @ assembledPool L ?R 0 es))"
    using loop hdr by (metis prod.collapse)
  then show ?thesis
    using D(2,3) rest by (simp add: assembleClassFile_def assembleWalk_def)
qed

section \<open>The two extraction outputs\<close>

lemmas parse_eval = parseClass_def parsePool.simps payloadLength_def

lemma okClass_parsed:
  "parseClass okClass = Some ([Utf8Entry (asciiBytes ''OK''), FixedEntry 3 [0, 0, 0, 1]], [0xAA, 0xBB])"
  by (simp add: okClass_def parse_eval buffer_eval)

lemma okClass_texts: "eligibleTexts L [Utf8Entry (asciiBytes ''OK''), FixedEntry 3 [0, 0, 0, 1]] = [js ''OK'']"
  by (simp add: text_eval buffer_eval)

text \<open>
  Claim C8, as the code has it. On a valid class file the config text of
  \<open>extractStringsFromClass\<close> is the header \<open># Translation File: <name>\<close>,
  \<open># Only edit text inside quotes "..."\<close>, \<open># Format: str_ID = "Value"\<close>, a blank
  line, and one line \<open>str_<id> = "<escaped text>"\<close> per eligible string. The reference
  text of \<open>extractReadableStrings\<close> has a header of its own,
  \<open># RAW CONSTANT POOL (REFERENCE ONLY)\<close>, \<open># ID    | Value (UTF-8)\<close>,
  \<open># ------|--------------------------\<close>, with no blank line after it and no file
  name in it, and then one line \<open>str_<id padded to 5> | "<escaped text>"\<close> per eligible
  string.
\<close>

theorem extraction_outputs:
  assumes "parseClass content = Some (es, rest)"
  shows "extractStringsFromClass L content fileName
           = Inr (configHeader fileName @ numberedLines configLineOf 0 (eligibleTexts L es))
     \<and> extractReadableStrings L content
           = Inr (referenceHeader @ numberedLines referenceLineOf 0 (eligibleTexts L es))"
  using extract_parsed [OF assms] readable_parsed [OF assms] by simp

theorem extraction_outputs_witness:
  "parseClass okClass = Some ([Utf8Entry (asciiBytes ''OK''), FixedEntry 3 [0, 0, 0, 1]], [0xAA, 0xBB])
   \<and> extractStringsFromClass asciiLetters okClass (js ''A.class'')
       = Inr (configHeader (js ''A.class'') @ configLine (js ''0'') (js ''OK''))
   \<and> extractReadableStrings asciiLetters okClass
       = Inr (referenceHeader @ referenceLine (js ''    0'') (js ''OK''))"
proof -
  have "configLineOf 0 (js ''OK'') = configLine (js ''0'') (js ''OK'')"
    "referenceLineOf 0 (js ''OK'') = referenceLine (js ''    0'') (js ''OK'')"
    by (simp_all add: configLineOf_def referenceLineOf_def text_eval replicate_numeral)
  then show ?thesis
    using extraction_outputs [OF okClass_parsed, of asciiLetters "js ''A.class''",
        unfolded okClass_texts]
    by (simp add: okClass_parsed)
qed

text \<open>
  Claim C8 as stated fails: the reference text of the valid class file \<open>okClass\<close> does
  not begin with \<open># Translation File: \<close>.
\<close>

theorem reference_header_differs:
  "parseClass okClass = Some ([Utf8Entry (asciiBytes ''OK''), FixedEntry 3 [0, 0, 0, 1]], [0xAA, 0xBB])
   \<and> extractReadableStrings asciiLetters okClass
       = Inr (referenceHeader @ referenceLine (js ''    0'') (js ''OK''))
   \<and> \<not> prefix (js ''# Translation File: '')
         (referenceHeader @ referenceLine (js ''    0'') (js ''OK''))"
proof -
  have "extractReadableStrings asciiLetters okClass
       = Inr (referenceHeader @ referenceLine (js ''    0'') (js ''OK''))"
    by (simp add: extractReadableStrings_def okClass_def readableLoop.simps
        text_eval buffer_eval replicate_numeral)
  moreover have "\<not> prefix (js ''# Translation File: '')
         (referenceHeader @ referenceLine (js ''    0'') (js ''OK''))"
    by (simp add: referenceHeader_def js_def)
  ultimately show ?thesis
    by (simp add: okClass_parsed)
qed

section \<open>Reference lines and their conversion\<close>

lemma scanValue_sound: "scanValue s = Some v \<Longrightarrow> \<exists>post. s = v @ 34 # post \<and> isValueBody v"
proof (induction s arbitrary: v rule: scanValue.induct)
  case 1
  then show ?case by simp
next
  case (2 c cs)
  show ?case
  proof (cases "c = 34")
    case True
    with "2.prems" show ?thesis by auto
  next
    case notq: False
    show ?thesis
    proof (cases "c = 92")
      case True
      with "2.prems" notq obtain d r v' where cs: "cs = d # r" and d: "\<not> isLineTerminator d"
        and r: "scanValue r = Some v'" and v: "v = c # d # v'"
        by (auto split: list.splits if_splits)
      from "2.IH"(1) [OF notq True cs d r] obtain post where "r = v' @ 34 # post" "isValueBody v'"
        by blast
      then show ?thesis
        using True cs d v by auto
    next
      case False
      with "2.prems" notq obtain v' where r: "scanValue cs = Some v'" and v: "v = c # v'"
        by auto
      from "2.IH"(2) [OF notq False r] obtain post where "cs = v' @ 34 # post" "isValueBody v'"
        by blast
      then show ?thesis
        using False notq v by auto
    qed
  qed
qed

lemma scanValue_complete: "isValueBody v \<Longrightarrow> scanValue (v @ 34 # post) = Some v"
  by (induction v rule: isValueBody.induct) (auto split: list.splits)

lemma stripPrefix_Some: "stripPrefix p s = Some r \<longleftrightarrow> s = p @ r"
  by (auto simp: stripPrefix_def startsWith_prefix prefix_def)

lemma digit_not_space: "isDigit c \<Longrightarrow> \<not> isSpace c"
  by (auto simp: isDigit_def isSpace_def)

lemma dropWhile_spaces:
  assumes "list_all isSpace ws" and "\<not> isSpace c"
  shows "dropWhile isSpace (ws @ c # r) = c # r"
  using assms by (simp add: dropWhile_append2 list_all_iff)

lemma takeWhile_spaces:
  assumes "list_all isSpace ws" and "\<not> isSpace c"
  shows "takeWhile isSpace (ws @ c # r) = ws"
  using assms by (simp add: takeWhile_append2 list_all_iff)

lemma takeWhile_digits:
  assumes "list_all isDigit ds" and "\<not> isDigit c"
  shows "takeWhile isDigit (ds @ c # r) = ds" "dropWhile isDigit (ds @ c # r) = c # r"
  using assms by (simp_all add: takeWhile_append2 dropWhile_append2 list_all_iff)

lemma split_spaces:
  "dropWhile isSpace s = c # r \<Longrightarrow> \<exists>ws. s = ws @ c # r \<and> list_all isSpace ws"
  by (metis takeWhile_dropWhile_id list_all_iff set_takeWhileD)

lemma refMatchAt_sound:
  assumes "refMatchAt s = Some (ds, v)"
  shows "\<exists>ws1 ws2 ws3 post.
           s = js ''str_'' @ ws1 @ ds @ ws2 @ [124] @ ws3 @ [34] @ v @ [34] @ post
           \<and> list_all isSpace ws1 \<and> list_all isSpace ws2 \<and> list_all isSpace ws3
           \<and> ds \<noteq> [] \<and> list_all isDigit ds \<and> isValueBody v"
proof -
  from assms obtain r0 where r0: "s = js ''str_'' @ r0"
    by (auto simp: refMatchAt_def stripPrefix_Some split: option.splits)
  define r where "r = dropWhile isSpace r0"
  define ws1 where "ws1 = takeWhile isSpace r0"
  have sp: "stripPrefix (js ''str_'') s = Some r0"
    by (simp add: stripPrefix_Some r0)
  from assms have ds: "ds = takeWhile isDigit r" "ds \<noteq> []"
    by (auto simp: refMatchAt_def sp r_def Let_def split: list.splits if_splits)
  from assms obtain r2 where r2: "dropWhile isSpace (dropWhile isDigit r) = 124 # r2"
    by (auto simp: refMatchAt_def sp r_def Let_def split: list.splits if_splits)
  with assms obtain r3 where r3: "dropWhile isSpace r2 = 34 # r3" and v: "scanValue r3 = Some v"
    by (auto simp: refMatchAt_def sp r_def Let_def split: list.splits if_splits)
  obtain ws2 where ws2: "dropWhile isDigit r = ws2 @ 124 # r2" "list_all isSpace ws2"
    using split_spaces [OF r2] by blast
  obtain ws3 where ws3: "r2 = ws3 @ 34 # r3" "list_all isSpace ws3"
    using split_spaces [OF r3] by blast
  obtain post where post: "r3 = v @ 34 # post" "isValueBody v"
    using scanValue_sound [OF v] by blast
  have "r0 = ws1 @ r"
    by (simp add: ws1_def r_def)
  moreover have "r = ds @ dropWhile isDigit r"
    by (simp add: ds)
  moreover have "list_all isSpace ws1" "list_all isDigit ds"
    by (auto simp: ws1_def ds list_all_iff dest: set_takeWhileD)
  ultimately show ?thesis
    using r0 ws2 ws3 post ds(2) by (metis append_Cons append_Nil append_assoc)
qed

lemma not_space_simps: "\<not> isSpace 124" "\<not> isSpace 34" "\<not> isSpace 61" "\<not> isDigit 124" "\<not> isDigit 34" "\<not> isDigit 61"
  by (simp_all add: isSpace_def isDigit_def)

lemma takeWhile_digits_then:
  assumes "list_all isDigit ds" and "list_all isSpace ws" and "\<not> isDigit c"
  shows "takeWhile isDigit (ds @ ws @ c # r) = ds" "dropWhile isDigit (ds @ ws @ c # r) = ws @ c # r"
proof -
  have "\<exists>x t. ws @ c # r = x # t \<and> \<not> isDigit x"
    using assms(2,3) by (cases ws) (auto dest: digit_not_space)
  then obtain x t where xt: "ws @ c # r = x # t" "\<not> isDigit x" by blast
  show "takeWhile isDigit (ds @ ws @ c # r) = ds" "dropWhile isDigit (ds @ ws @ c # r) = ws @ c # r"
    using takeWhile_digits [OF assms(1) xt(2), of t] by (simp_all add: xt(1))
qed

lemma refMatchAt_complete:
  assumes "list_all isSpace ws1" "list_all isSpace ws2" "list_all isSpace ws3"
    and "ds \<noteq> []" "list_all isDigit ds" "isValueBody v"
  shows "refMatchAt (js ''str_'' @ ws1 @ ds @ ws2 @ [124] @ ws3 @ [34] @ v @ [34] @ post) = Some (ds, v)"
proof -
  let ?tail = "ws2 @ 124 # ws3 @ 34 # v @ 34 # post"
  obtain d ds' where d: "ds = d # ds'" "isDigit d"
    using assms(4,5) by (cases ds) auto
  have 1: "dropWhile isSpace (ws1 @ ds @ ?tail) = ds @ ?tail"
    using dropWhile_spaces [OF assms(1) digit_not_space [OF d(2)], of "ds' @ ?tail"]
    by (simp add: d(1))
  have 2: "takeWhile isDigit (ds @ ?tail) = ds" "dropWhile isDigit (ds @ ?tail) = ?tail"
    using takeWhile_digits_then [OF assms(5) assms(2) not_space_simps(4)] by simp_all
  have 3: "dropWhile isSpace ?tail = 124 # ws3 @ 34 # v @ 34 # post"
    using dropWhile_spaces [OF assms(2) not_space_simps(1)] by simp
  have 4: "dropWhile isSpace (ws3 @ 34 # v @ 34 # post) = 34 # v @ 34 # post"
    using dropWhile_spaces [OF assms(3) not_space_simps(2)] by simp
  have sp: "stripPrefix (js ''str_'') (js ''str_'' @ ws1 @ ds @ ?tail) = Some (ws1 @ ds @ ?tail)"
    by (simp add: stripPrefix_Some)
  show ?thesis
    using sp 1 2 3 4 assms(4) scanValue_complete [OF assms(6), of post]
    by (simp add: refMatchAt_def)
qed

lemma refSearch_sound:
  "refSearch line = Some m \<Longrightarrow> \<exists>pre s. line = pre @ s \<and> refMatchAt s = Some m"
proof (induction line)
  case Nil
  then show ?case by auto
next
  case (Cons c cs)
  show ?case
  proof (cases "refMatchAt (c # cs)")
    case None
    with Cons.prems have "refSearch cs = Some m" by simp
    from Cons.IH [OF this] obtain pre s where "cs = pre @ s" "refMatchAt s = Some m" by blast
    then have "c # cs = (c # pre) @ s \<and> refMatchAt s = Some m" by simp
    then show ?thesis by blast
  next
    case (Some a)
    with Cons.prems have "c # cs = [] @ (c # cs) \<and> refMatchAt (c # cs) = Some m" by simp
    then show ?thesis by blast
  qed
qed

lemma refSearch_complete: "refMatchAt s = Some m \<Longrightarrow> refSearch (pre @ s) \<noteq> None"
proof (induction pre)
  case Nil
  then show ?case by (cases s) auto
next
  case (Cons c pre)
  then show ?case by (auto split: option.splits)
qed

lemma refSearch_matches:
  "refSearch line = Some (ds, v) \<Longrightarrow> matchesReferencePattern line ds v"
  unfolding matchesReferencePattern_def
  using refSearch_sound [of line "(ds, v)"] refMatchAt_sound [of _ ds v] by blast

lemma refSearch_None_iff:
  "(refSearch line = None) = (\<forall>ds v. \<not> matchesReferencePattern line ds v)"
proof
  assume none: "refSearch line = None"
  show "\<forall>ds v. \<not> matchesReferencePattern line ds v"
  proof (intro allI notI)
    fix ds v
    assume "matchesReferencePattern line ds v"
    then obtain pre ws1 ws2 ws3 post where
      line: "line = pre @ js ''str_'' @ ws1 @ ds @ ws2 @ [124] @ ws3 @ [34] @ v @ [34] @ post"
      and c: "list_all isSpace ws1" "list_all isSpace ws2" "list_all isSpace ws3"
        "ds \<noteq> []" "list_all isDigit ds" "isValueBody v"
      unfolding matchesReferencePattern_def by blast
    have "refSearch line \<noteq> None"
      unfolding line by (rule refSearch_complete [OF refMatchAt_complete [OF c]])
    with none show False by simp
  qed
next
  assume none: "\<forall>ds v. \<not> matchesReferencePattern line ds v"
  show "refSearch line = None"
  proof (cases "refSearch line")
    case None
    then show ?thesis .
  next
    case (Some m)
    then have "matchesReferencePattern line (fst m) (snd m)"
      using refSearch_matches [of line "fst m" "snd m"] by simp
    with none show ?thesis by blast
  qed
qed

lemma foldl_emit:
  "foldl (\<lambda>out line. case f line of Some (d, v) \<Rightarrow> out @ g d v | None \<Rightarrow> out) h ls
   = h @ concat (map (\<lambda>line. case f line of Some (d, v) \<Rightarrow> g d v | None \<Rightarrow> []) ls)"
  by (induction ls arbitrary: h) (auto split: option.splits)

lemma convert_lines:
  "convertReferenceToConfig referenceText fileName
   = configHeader fileName @ concat (map convertedLine (splitLines referenceText))"
  unfolding convertReferenceToConfig_def convertedLine_def by (rule foldl_emit)

lemmas regex_eval = refMatchAt_def editMatchAt_def stripPrefix_def isSpace_def isLineTerminator_def
  isDigit_def js_def

lemma cancel_line: \<open>refSearch (js ''str_    3 | "Cancel"'') = Some (js ''3'', js ''Cancel'')\<close>
  by (simp add: regex_eval)

lemma cancel_line_no_pipe: \<open>refSearch (js ''str_    3 "Cancel"'') = None\<close>
  by (simp add: regex_eval)

section \<open>The config text read back as edits\<close>

lemma configLine_bare: "configLine ident v = bareConfigLine ident v @ [10]"
  by (simp add: configLine_def bareConfigLine_def)

lemma editMatchAt_complete:
  assumes "list_all isSpace ws1" "list_all isSpace ws2"
    and "ds \<noteq> []" "list_all isDigit ds" "isValueBody v"
  shows "editMatchAt (js ''str_'' @ ds @ ws1 @ [61] @ ws2 @ [34] @ v @ [34] @ post) = Some (ds, v)"
proof -
  let ?tail = "ws1 @ 61 # ws2 @ 34 # v @ 34 # post"
  have 2: "takeWhile isDigit (ds @ ?tail) = ds" "dropWhile isDigit (ds @ ?tail) = ?tail"
    using takeWhile_digits_then [OF assms(4) assms(1) not_space_simps(6)] by simp_all
  have 3: "dropWhile isSpace ?tail = 61 # ws2 @ 34 # v @ 34 # post"
    using dropWhile_spaces [OF assms(1) not_space_simps(3)] by simp
  have 4: "dropWhile isSpace (ws2 @ 34 # v @ 34 # post) = 34 # v @ 34 # post"
    using dropWhile_spaces [OF assms(2) not_space_simps(2)] by simp
  have sp: "stripPrefix (js ''str_'') (js ''str_'' @ ds @ ?tail) = Some (ds @ ?tail)"
    by (simp add: stripPrefix_Some)
  show ?thesis
    using sp 2 3 4 assms(3) scanValue_complete [OF assms(5), of post]
    by (simp add: editMatchAt_def)
qed

lemma editMatchAt_sound:
  assumes "editMatchAt s = Some (ds, v)"
  shows "\<exists>ws1 ws2 post.
           s = js ''str_'' @ ds @ ws1 @ [61] @ ws2 @ [34] @ v @ [34] @ post
           \<and> list_all isSpace ws1 \<and> list_all isSpace ws2
           \<and> ds \<noteq> [] \<and> list_all isDigit ds \<and> isValueBody v"
proof -
  from assms obtain r where r: "s = js ''str_'' @ r"
    by (auto simp: editMatchAt_def stripPrefix_Some split: option.splits)
  have sp: "stripPrefix (js ''str_'') s = Some r"
    by (simp add: stripPrefix_Some r)
  from assms have ds: "ds = takeWhile isDigit r" "ds \<noteq> []"
    by (auto simp: editMatchAt_def sp split: list.splits if_splits)
  from assms obtain r2 where r2: "dropWhile isSpace (dropWhile isDigit r) = 61 # r2"
    by (auto simp: editMatchAt_def sp split: list.splits if_splits)
  with assms obtain r3 where r3: "dropWhile isSpace r2 = 34 # r3" and v: "scanValue r3 = Some v"
    by (auto simp: editMatchAt_def sp split: list.splits if_splits)
  obtain ws1 where ws1: "dropWhile isDigit r = ws1 @ 61 # r2" "list_all isSpace ws1"
    using split_spaces [OF r2] by blast
  obtain ws2 where ws2: "r2 = ws2 @ 34 # r3" "list_all isSpace ws2"
    using split_spaces [OF r3] by blast
  obtain post where post: "r3 = v @ 34 # post" "isValueBody v"
    using scanValue_sound [OF v] by blast
  have "r = ds @ dropWhile isDigit r"
    by (simp add: ds)
  moreover have "list_all isDigit ds"
    by (auto simp: ds list_all_iff dest: set_takeWhileD)
  ultimately show ?thesis
    using r ws1 ws2 post ds(2) by (metis append_Cons append_Nil)
qed

lemma editSearch_sound:
  "editSearch line = Some m \<Longrightarrow> \<exists>pre s. line = pre @ s \<and> editMatchAt s = Some m"
proof (induction line)
  case Nil
  then show ?case by auto
next
  case (Cons c cs)
  show ?case
  proof (cases "editMatchAt (c # cs)")
    case None
    with Cons.prems have "editSearch cs = Some m" by simp
    from Cons.IH [OF this] obtain pre s where "cs = pre @ s" "editMatchAt s = Some m" by blast
    then have "c # cs = (c # pre) @ s \<and> editMatchAt s = Some m" by simp
    then show ?thesis by blast
  next
    case (Some a)
    with Cons.prems have "c # cs = [] @ (c # cs) \<and> editMatchAt (c # cs) = Some m" by simp
    then show ?thesis by blast
  qed
qed

lemma editSearch_complete: "editMatchAt s = Some m \<Longrightarrow> editSearch (pre @ s) \<noteq> None"
proof (induction pre)
  case Nil
  then show ?case by (cases s) auto
next
  case (Cons c pre)
  then show ?case by (auto split: option.splits)
qed

lemma editSearch_matches:
  "editSearch line = Some (ds, v) \<Longrightarrow> matchesEditPattern line ds v"
  unfolding matchesEditPattern_def
  using editSearch_sound [of line "(ds, v)"] editMatchAt_sound [of _ ds v] by blast

lemma editSearch_None_iff:
  "(editSearch line = None) = (\<forall>ds v. \<not> matchesEditPattern line ds v)"
proof
  assume none: "editSearch line = None"
  show "\<forall>ds v. \<not> matchesEditPattern line ds v"
  proof (intro allI notI)
    fix ds v
    assume "matchesEditPattern line ds v"
    then obtain pre ws1 ws2 post where
      line: "line = pre @ js ''str_'' @ ds @ ws1 @ [61] @ ws2 @ [34] @ v @ [34] @ post"
      and c: "list_all isSpace ws1" "list_all isSpace ws2"
        "ds \<noteq> []" "list_all isDigit ds" "isValueBody v"
      unfolding matchesEditPattern_def by blast
    have "editSearch line \<noteq> None"
      unfolding line by (rule editSearch_complete [OF editMatchAt_complete [OF c]])
    with none show False by simp
  qed
next
  assume none: "\<forall>ds v. \<not> matchesEditPattern line ds v"
  show "editSearch line = None"
  proof (cases "editSearch line")
    case None
    then show ?thesis .
  next
    case (Some m)
    then have "matchesEditPattern line (fst m) (snd m)"
      using editSearch_matches [of line "fst m" "snd m"] by simp
    with none show ?thesis by blast
  qed
qed

lemma editSearch_at_start: "editMatchAt s = Some m \<Longrightarrow> editSearch s = Some m"
  by (cases s) auto

lemma editSearch_bare:
  assumes "ds \<noteq> []" "list_all isDigit ds" "isValueBody v"
  shows "editSearch (bareConfigLine ds v) = Some (ds, v)"
proof -
  have "list_all isSpace [32]"
    by (simp add: isSpace_def)
  from editMatchAt_complete [OF this this assms, of "[]"]
  have "editMatchAt (bareConfigLine ds v) = Some (ds, v)"
    by (simp add: bareConfigLine_def js_def)
  then show ?thesis
    by (rule editSearch_at_start)
qed

lemma toString10_digits: "toString10 n \<noteq> [] \<and> list_all isDigit (toString10 n)"
proof (induction n rule: toString10.induct)
  case (1 n)
  show ?case
  proof (cases "n < 10")
    case True
    then show ?thesis
      by (subst toString10.simps, subst (2) toString10.simps) (simp add: isDigit_def)
  next
    case False
    have "n mod 10 < 10" by simp
    then have "isDigit (48 + n mod 10)"
      by (simp add: isDigit_def)
    then show ?thesis
      using 1 False by (subst toString10.simps, subst (2) toString10.simps) simp
  qed
qed

lemma parseInt_snoc: "parseInt (ds @ [d]) = 10 * parseInt ds + (d - 48)"
  by (simp add: parseInt_def)

lemma parseInt_toString10: "parseInt (toString10 n) = n"
proof (induction n rule: toString10.induct)
  case (1 n)
  show ?case
  proof (cases "n < 10")
    case True
    then show ?thesis
      by (subst toString10.simps) (simp add: parseInt_def)
  next
    case False
    then show ?thesis
      using 1 by (subst toString10.simps) (simp add: parseInt_snoc)
  qed
qed

lemma hex4:
  assumes "c < 32"
  shows "padStart (toString16 c) 4 48 = [48, 48, hexDigit (c div 16), hexDigit (c mod 16)]"
proof (cases "c < 16")
  case True
  then have "toString16 c = [hexDigit c]"
    by (subst toString16.simps) simp
  then show ?thesis
    using True by (simp add: padStart_def hexDigit_def replicate_numeral)
next
  case False
  then have d: "c div 16 = 1"
    using assms by simp
  have "toString16 c = toString16 1 @ [hexDigit (c mod 16)]"
    using False d by (subst toString16.simps) simp
  also have "toString16 1 = [hexDigit 1]"
    by (subst toString16.simps) simp
  finally show ?thesis
    by (simp add: padStart_def d replicate_numeral)
qed

lemma hexDigit_plain: "d < 16 \<Longrightarrow> hexDigit d \<noteq> 34 \<and> hexDigit d \<noteq> 92 \<and> hexDigit d \<noteq> 10"
  by (auto simp: hexDigit_def)

lemma hexValue_hexDigit: "d < 16 \<Longrightarrow> hexValue (hexDigit d) = Some d"
  by (auto simp: hexValue_def hexDigit_def)

lemma isValueBody_escapeChar: "isValueBody (escapeChar c @ rest) = isValueBody rest"
proof -
  have "isValueBody ([92, 117, 48, 48, hexDigit (c div 16), hexDigit (c mod 16)] @ rest)
        = isValueBody rest" if "c < 32"
    using that hexDigit_plain [of "c div 16"] hexDigit_plain [of "c mod 16"]
    by (simp add: isLineTerminator_def)
  then show ?thesis
    by (auto simp: escapeChar_def hex4 isLineTerminator_def)
qed

lemma isValueBody_toJavaUnicode: "isValueBody (toJavaUnicode t)"
  by (induction t) (simp_all add: toJavaUnicode_def isValueBody_escapeChar)

lemma jsonChar_escapeChar: "jsonChar (escapeChar c @ rest) = Some (c, rest)"
proof -
  have "jsonChar ([92, 117, 48, 48, hexDigit (c div 16), hexDigit (c mod 16)] @ rest)
        = Some (c, rest)" if "c < 32"
  proof -
    have "c div 16 < 16" "c mod 16 < 16"
      using that by simp_all
    moreover have "hexValue 48 = Some 0"
      by (simp add: hexValue_def)
    ultimately show ?thesis
      by (simp add: jsonChar_def hexValue_hexDigit)
  qed
  then show ?thesis
    by (auto simp: escapeChar_def hex4 jsonChar_def jsonSimpleEscape_def)
qed

lemma escapeChar_not_Nil: "escapeChar c @ rest \<noteq> []"
  by (auto simp: escapeChar_def)

lemma jsonBody_toJavaUnicode: "jsonBody (toJavaUnicode t) = Some t"
proof (induction t)
  case Nil
  show ?case
    by (subst jsonBody.simps) (simp add: toJavaUnicode_def)
next
  case (Cons c t)
  have "toJavaUnicode (c # t) = escapeChar c @ toJavaUnicode t"
    by (simp add: toJavaUnicode_def)
  then show ?case
    using Cons escapeChar_not_Nil [of c "toJavaUnicode t"]
    by (subst jsonBody.simps) (simp add: jsonChar_escapeChar)
qed

lemma fromJavaUnicode_toJavaUnicode: "fromJavaUnicode (toJavaUnicode t) = t"
  by (simp add: fromJavaUnicode_def jsonBody_toJavaUnicode)

lemma escapeChar_no_newline: "10 \<notin> set (escapeChar c)"
  using hexDigit_plain [of "c div 16"] hexDigit_plain [of "c mod 16"]
  by (auto simp: escapeChar_def hex4)

lemma toJavaUnicode_no_newline: "10 \<notin> set (toJavaUnicode t)"
  by (induction t) (simp_all add: toJavaUnicode_def escapeChar_no_newline)

lemma toString10_no_newline: "10 \<notin> set (toString10 n)"
  using toString10_digits [of n] by (auto simp: list_all_iff isDigit_def)

lemma splitLines_not_Nil: "splitLines s \<noteq> []"
  by (induction s) (auto split: list.splits)

lemma splitLines_no_newline: "10 \<notin> set s \<Longrightarrow> splitLines s = [s]"
  by (induction s) auto

lemma splitLines_append: "splitLines (xs @ 10 # ys) = splitLines xs @ splitLines ys"
proof (induction xs)
  case Nil
  then show ?case by simp
next
  case (Cons x xs)
  obtain l ls where l: "splitLines xs = l # ls"
    using splitLines_not_Nil [of xs] by (cases "splitLines xs") auto
  show ?case
    using Cons by (simp add: l)
qed

lemma splitLines_line: "10 \<notin> set l \<Longrightarrow> splitLines (l @ 10 # ys) = l # splitLines ys"
  by (simp add: splitLines_append splitLines_no_newline)

lemma bareConfigLine_no_newline: "10 \<notin> set ident \<Longrightarrow> 10 \<notin> set v \<Longrightarrow> 10 \<notin> set (bareConfigLine ident v)"
  by (simp add: bareConfigLine_def js_def)

lemma splitLines_numbered:
  "splitLines (numberedLines configLineOf k ts) = bareLines k ts @ [[]]"
proof (induction ts arbitrary: k)
  case Nil
  then show ?case by simp
next
  case (Cons t ts)
  have "10 \<notin> set (bareConfigLine (toString10 k) (toJavaUnicode t))"
    by (rule bareConfigLine_no_newline [OF toString10_no_newline toJavaUnicode_no_newline])
  then show ?case
    using Cons [of "Suc k"] by (simp add: configLineOf_def configLine_bare splitLines_line)
qed

lemma configHeader_ends: "\<exists>h. configHeader fileName = h @ [10]"
proof -
  have \<open>configHeader fileName
        = (js ''# Translation File: '' @ fileName @ [10]
           @ js ''# Only edit text inside quotes "..."'' @ [10]
           @ js ''# Format: str_ID = "Value"'' @ [10]) @ [10]\<close>
    by (simp add: configHeader_def)
  then show ?thesis by blast
qed

lemma splitLines_config:
  "\<exists>pre. splitLines (configHeader fileName @ numberedLines configLineOf 0 ts)
         = pre @ bareLines 0 ts @ [[]]"
proof -
  obtain h where h: "configHeader fileName = h @ [10]"
    using configHeader_ends by blast
  have "splitLines (configHeader fileName @ numberedLines configLineOf 0 ts)
        = splitLines h @ bareLines 0 ts @ [[]]"
    by (simp add: h splitLines_append splitLines_numbered)
  then show ?thesis by blast
qed

lemma setReplacement_bare:
  "setReplacement m (bareConfigLine (toString10 k) (toJavaUnicode t)) = m(k \<mapsto> t)"
  using editSearch_bare [of "toString10 k" "toJavaUnicode t"] toString10_digits [of k]
  by (simp add: setReplacement_def isValueBody_toJavaUnicode parseInt_toString10
      fromJavaUnicode_toJavaUnicode)

lemma setReplacement_empty_line: "setReplacement m [] = m"
  by (simp add: setReplacement_def editMatchAt_def stripPrefix_def js_def)

lemma foldl_bareLines:
  "foldl setReplacement m (bareLines k ts) j
   = (if k \<le> j \<and> j < k + length ts then Some (ts ! (j - k)) else m j)"
proof (induction ts arbitrary: k m)
  case Nil
  then show ?case by auto
next
  case (Cons t ts)
  have step: "foldl setReplacement m (bareLines k (t # ts)) j
      = (if Suc k \<le> j \<and> j < Suc k + length ts then Some (ts ! (j - Suc k))
         else (m(k \<mapsto> t)) j)"
    by (simp only: bareLines.simps foldl.simps setReplacement_bare) (rule Cons)
  have nth: "(t # ts) ! (j - k) = ts ! (j - Suc k)" if "Suc k \<le> j"
  proof -
    have "j - k = Suc (j - Suc k)"
      using that by simp
    then show ?thesis by simp
  qed
  show ?case
    unfolding step using nth by auto
qed

lemma parseReplacements_config:
  assumes "j < length ts"
  shows "parseReplacements (configHeader fileName @ numberedLines configLineOf 0 ts) j
         = Some (ts ! j)"
proof -
  obtain pre where "splitLines (configHeader fileName @ numberedLines configLineOf 0 ts)
         = pre @ bareLines 0 ts @ [[]]"
    using splitLines_config by blast
  then show ?thesis
    using assms
    by (simp add: parseReplacements_def setReplacement_empty_line foldl_bareLines)
qed

section \<open>The conversion, line by line\<close>

lemma joinLines_Cons: "joinLines ((c # l) # ls) = c # joinLines (l # ls)"
  by (cases ls) simp_all

lemma joinLines_splitLines: "joinLines (splitLines s) = s"
proof (induction s)
  case Nil
  then show ?case by simp
next
  case (Cons c cs)
  obtain l ls where l: "splitLines cs = l # ls"
    using splitLines_not_Nil [of cs] by (cases "splitLines cs") auto
  show ?case
    using Cons by (simp add: l joinLines_Cons)
qed

lemma splitLines_lines: "\<forall>l \<in> set (splitLines s). 10 \<notin> set l"
proof (induction s)
  case Nil
  then show ?case by simp
next
  case (Cons c cs)
  obtain l ls where l: "splitLines cs = l # ls"
    using splitLines_not_Nil [of cs] by (cases "splitLines cs") auto
  show ?case
    using Cons by (auto simp: l)
qed

lemma text_of_lines: "\<exists>ls. ls \<noteq> [] \<and> (\<forall>l \<in> set ls. 10 \<notin> set l) \<and> s = joinLines ls"
  using splitLines_not_Nil [of s] splitLines_lines [of s] joinLines_splitLines [of s]
  by metis

lemma isValueBody_claimed: "isValueBody v \<Longrightarrow> claimedValue v"
  by (induction v rule: isValueBody.induct) (auto split: if_splits list.splits)

lemma matchesReferencePattern_claimed:
  "matchesReferencePattern line ds v \<Longrightarrow> matchesClaimedPattern line ds v"
  unfolding matchesReferencePattern_def matchesClaimedPattern_def
  using isValueBody_claimed by blast

lemma referencePatternAt_iff:
  "referencePatternAt n line ds v \<longleftrightarrow> n \<le> length line \<and> refMatchAt (drop n line) = Some (ds, v)"
  unfolding referencePatternAt_def
  using refMatchAt_sound [of "drop n line" ds v] refMatchAt_complete [of _ _ _ ds v]
  by (metis (no_types, lifting))

lemma matchesReferencePattern_at:
  "matchesReferencePattern line ds v \<longleftrightarrow> (\<exists>n. referencePatternAt n line ds v)"
proof
  assume "matchesReferencePattern line ds v"
  then obtain pre ws1 ws2 ws3 post where
    line: "line = pre @ js ''str_'' @ ws1 @ ds @ ws2 @ [124] @ ws3 @ [34] @ v @ [34] @ post"
    and c: "list_all isSpace ws1" "list_all isSpace ws2" "list_all isSpace ws3"
      "ds \<noteq> []" "list_all isDigit ds" "isValueBody v"
    unfolding matchesReferencePattern_def by blast
  have "drop (length pre) line = js ''str_'' @ ws1 @ ds @ ws2 @ [124] @ ws3 @ [34] @ v @ [34] @ post"
    "length pre \<le> length line"
    by (simp_all add: line)
  then have "referencePatternAt (length pre) line ds v"
    unfolding referencePatternAt_def using c by blast
  then show "\<exists>n. referencePatternAt n line ds v" ..
next
  assume "\<exists>n. referencePatternAt n line ds v"
  then obtain n ws1 ws2 ws3 post where
    "drop n line = js ''str_'' @ ws1 @ ds @ ws2 @ [124] @ ws3 @ [34] @ v @ [34] @ post"
    and c: "list_all isSpace ws1" "list_all isSpace ws2" "list_all isSpace ws3"
      "ds \<noteq> []" "list_all isDigit ds" "isValueBody v"
    unfolding referencePatternAt_def by blast
  then have "line = take n line @ js ''str_'' @ ws1 @ ds @ ws2 @ [124] @ ws3 @ [34] @ v @ [34] @ post"
    using append_take_drop_id [of n line] by simp
  then show "matchesReferencePattern line ds v"
    unfolding matchesReferencePattern_def using c by blast
qed

lemma refSearch_first:
  "refSearch line = Some m \<longleftrightarrow>
     (\<exists>n \<le> length line. refMatchAt (drop n line) = Some m
        \<and> (\<forall>k < n. refMatchAt (drop k line) = None))"
proof (induction line)
  case Nil
  then show ?case by auto
next
  case (Cons c cs)
  show ?case
  proof (cases "refMatchAt (c # cs)")
    case (Some a)
    have "(\<exists>n \<le> length (c # cs). refMatchAt (drop n (c # cs)) = Some m
        \<and> (\<forall>k < n. refMatchAt (drop k (c # cs)) = None)) \<longleftrightarrow> a = m"
    proof
      assume "\<exists>n \<le> length (c # cs). refMatchAt (drop n (c # cs)) = Some m
        \<and> (\<forall>k < n. refMatchAt (drop k (c # cs)) = None)"
      then obtain n where n: "refMatchAt (drop n (c # cs)) = Some m"
        "\<forall>k < n. refMatchAt (drop k (c # cs)) = None"
        by blast
      have "n = 0"
      proof (rule ccontr)
        assume "n \<noteq> 0"
        then have "refMatchAt (drop 0 (c # cs)) = None"
          using n(2) by blast
        then show False
          using Some by simp
      qed
      then show "a = m"
        using n(1) Some by simp
    next
      assume "a = m"
      then have "refMatchAt (drop 0 (c # cs)) = Some m \<and> (\<forall>k < 0. refMatchAt (drop k (c # cs)) = None)"
        using Some by simp
      then show "\<exists>n \<le> length (c # cs). refMatchAt (drop n (c # cs)) = Some m
        \<and> (\<forall>k < n. refMatchAt (drop k (c # cs)) = None)"
        by blast
    qed
    then show ?thesis
      using Some by simp
  next
    case None
    have "(\<exists>n \<le> length (c # cs). refMatchAt (drop n (c # cs)) = Some m
        \<and> (\<forall>k < n. refMatchAt (drop k (c # cs)) = None))
      \<longleftrightarrow> (\<exists>n \<le> length cs. refMatchAt (drop n cs) = Some m
        \<and> (\<forall>k < n. refMatchAt (drop k cs) = None))"
    proof
      assume "\<exists>n \<le> length (c # cs). refMatchAt (drop n (c # cs)) = Some m
        \<and> (\<forall>k < n. refMatchAt (drop k (c # cs)) = None)"
      then obtain n where n: "n \<le> length (c # cs)" "refMatchAt (drop n (c # cs)) = Some m"
        "\<forall>k < n. refMatchAt (drop k (c # cs)) = None"
        by blast
      have "n \<noteq> 0"
      proof
        assume "n = 0"
        then show False
          using n(2) None by simp
      qed
      then obtain j where j: "n = Suc j"
        by (cases n) auto
      have "\<forall>k < j. refMatchAt (drop k cs) = None"
      proof (intro allI impI)
        fix k
        assume "k < j"
        then have "refMatchAt (drop (Suc k) (c # cs)) = None"
          using n(3) j by blast
        then show "refMatchAt (drop k cs) = None"
          by simp
      qed
      then show "\<exists>n \<le> length cs. refMatchAt (drop n cs) = Some m
        \<and> (\<forall>k < n. refMatchAt (drop k cs) = None)"
        using n(1,2) j by auto
    next
      assume "\<exists>n \<le> length cs. refMatchAt (drop n cs) = Some m
        \<and> (\<forall>k < n. refMatchAt (drop k cs) = None)"
      then obtain n where n: "n \<le> length cs" "refMatchAt (drop n cs) = Some m"
        "\<forall>k < n. refMatchAt (drop k cs) = None"
        by blast
      have "\<forall>k < Suc n. refMatchAt (drop k (c # cs)) = None"
      proof (intro allI impI)
        fix k
        assume k: "k < Suc n"
        show "refMatchAt (drop k (c # cs)) = None"
        proof (cases k)
          case 0
          then show ?thesis using None by simp
        next
          case (Suc i)
          then show ?thesis using n(3) k by simp
        qed
      qed
      then have "Suc n \<le> length (c # cs) \<and> refMatchAt (drop (Suc n) (c # cs)) = Some m
          \<and> (\<forall>k < Suc n. refMatchAt (drop k (c # cs)) = None)"
        using n(1,2) by simp
      then show "\<exists>n \<le> length (c # cs). refMatchAt (drop n (c # cs)) = Some m
        \<and> (\<forall>k < n. refMatchAt (drop k (c # cs)) = None)"
        by blast
    qed
    then show ?thesis
      using None Cons.IH by simp
  qed
qed

lemma refSearch_leftmost: "refSearch line = Some (ds, v) \<longleftrightarrow> leftmostReferenceMatch line ds v"
proof
  assume "refSearch line = Some (ds, v)"
  then obtain n where n: "n \<le> length line" "refMatchAt (drop n line) = Some (ds, v)"
    "\<forall>k < n. refMatchAt (drop k line) = None"
    unfolding refSearch_first by blast
  have "referencePatternAt n line ds v"
    using n(1,2) by (simp add: referencePatternAt_iff)
  moreover have "\<forall>m < n. \<forall>ds' v'. \<not> referencePatternAt m line ds' v'"
    using n(3) by (simp add: referencePatternAt_iff)
  ultimately show "leftmostReferenceMatch line ds v"
    unfolding leftmostReferenceMatch_def by blast
next
  assume "leftmostReferenceMatch line ds v"
  then obtain n where n: "referencePatternAt n line ds v"
    "\<forall>m < n. \<forall>ds' v'. \<not> referencePatternAt m line ds' v'"
    unfolding leftmostReferenceMatch_def by blast
  have 1: "n \<le> length line" "refMatchAt (drop n line) = Some (ds, v)"
    using n(1) by (simp_all add: referencePatternAt_iff)
  have "\<forall>k < n. refMatchAt (drop k line) = None"
  proof (intro allI impI)
    fix k
    assume k: "k < n"
    show "refMatchAt (drop k line) = None"
    proof (cases "refMatchAt (drop k line)")
      case None
      then show ?thesis .
    next
      case (Some a)
      then have "referencePatternAt k line (fst a) (snd a)"
        using k 1(1) by (simp add: referencePatternAt_iff)
      then show ?thesis
        using n(2) k by blast
    qed
  qed
  then show "refSearch line = Some (ds, v)"
    unfolding refSearch_first using 1 by blast
qed

lemma leftmost_exists:
  assumes "matchesReferencePattern line ds v"
  shows "\<exists>ds' v'. leftmostReferenceMatch line ds' v'"
proof -
  have "refSearch line \<noteq> None"
    using assms refSearch_None_iff [of line] by blast
  then obtain m where "refSearch line = Some m"
    by blast
  then have "leftmostReferenceMatch line (fst m) (snd m)"
    by (simp add: refSearch_leftmost [symmetric])
  then show ?thesis
    by blast
qed

text \<open>
  Claim C7, as the code has it. The lines of a text are the pieces between its line
  feeds, and every text is such a sequence of lines. The output of
  \<open>convertReferenceToConfig\<close> is the config header and then, line by line in order, what
  \<open>convertedLine\<close> gives: for a line in which the pattern of the regular expression
  occurs, the line \<open>str_<digits> = "<value>"\<close> of its leftmost occurrence, and every
  line in which the pattern occurs has one; for a line in which it does not occur,
  nothing. The reference line \<open>str_    3 | "Cancel"\<close> becomes \<open>str_3 = "Cancel"\<close>, and the
  same line without the pipe is dropped.
\<close>

theorem convertReferenceToConfig_lines:
  \<open>(ls \<noteq> [] \<and> (\<forall>l \<in> set ls. 10 \<notin> set l)
      \<longrightarrow> convertReferenceToConfig (joinLines ls) fileName
          = configHeader fileName @ concat (map convertedLine ls))
   \<and> (\<exists>ls. ls \<noteq> [] \<and> (\<forall>l \<in> set ls. 10 \<notin> set l) \<and> referenceText = joinLines ls)
   \<and> (leftmostReferenceMatch line ds v \<longrightarrow> convertedLine line = configLine ds v)
   \<and> (matchesReferencePattern line ds v \<longrightarrow> (\<exists>ds' v'. leftmostReferenceMatch line ds' v'))
   \<and> ((\<forall>ds v. \<not> matchesReferencePattern line ds v) \<longrightarrow> convertedLine line = [])
   \<and> convertReferenceToConfig (js ''str_    3 | "Cancel"'') fileName
       = configHeader fileName @ js ''str_3 = "Cancel"'' @ [10]
   \<and> convertReferenceToConfig (js ''str_    3 "Cancel"'') fileName = configHeader fileName\<close>
proof -
  have single: "splitLines s = [s]" if "10 \<notin> set s" for s
    using that by (induction s) auto
  have nonempty: "splitLines s \<noteq> []" for s
    by (induction s) (auto split: list.splits)
  have broken: "splitLines (xs @ 10 # ys) = splitLines xs @ splitLines ys" for xs ys
  proof (induction xs)
    case Nil
    then show ?case by simp
  next
    case (Cons x xs)
    obtain l t where l: "splitLines xs = l # t"
      using nonempty [of xs] by (cases "splitLines xs") auto
    show ?case
      using Cons by (simp add: l)
  qed
  have joined: "splitLines (joinLines ls) = ls" if "ls \<noteq> []" "\<forall>l \<in> set ls. 10 \<notin> set l" for ls
    using that
  proof (induction ls rule: joinLines.induct)
    case 1
    then show ?case by simp
  next
    case (2 l)
    then show ?case by (simp add: single)
  next
    case (3 l l' ls)
    then show ?case by (simp add: broken single)
  qed
  have emitted: "convertReferenceToConfig t fileName
      = configHeader fileName @ concat (map convertedLine (splitLines t))" for t
    unfolding convertReferenceToConfig_def convertedLine_def by (rule foldl_emit)
  have lines: "ls \<noteq> [] \<and> (\<forall>l \<in> set ls. 10 \<notin> set l)
      \<longrightarrow> convertReferenceToConfig (joinLines ls) fileName
          = configHeader fileName @ concat (map convertedLine ls)"
    using joined [of ls] by (simp add: emitted)
  have leftmost: "leftmostReferenceMatch line ds v \<longrightarrow> convertedLine line = configLine ds v"
    by (simp add: convertedLine_def refSearch_leftmost [symmetric])
  have absent: "(\<forall>ds v. \<not> matchesReferencePattern line ds v) \<longrightarrow> convertedLine line = []"
    using refSearch_None_iff [of line] by (auto simp: convertedLine_def)
  have found: \<open>refSearch (js ''str_    3 | "Cancel"'') = Some (js ''3'', js ''Cancel'')\<close>
    and not_found: \<open>refSearch (js ''str_    3 "Cancel"'') = None\<close>
    by (simp_all add: regex_eval)
  have one_line: \<open>splitLines (js ''str_    3 | "Cancel"'') = [js ''str_    3 | "Cancel"'']\<close>
    \<open>splitLines (js ''str_    3 "Cancel"'') = [js ''str_    3 "Cancel"'']\<close>
    by (simp_all add: js_def)
  have line3: \<open>configLine (js ''3'') (js ''Cancel'') = js ''str_3 = "Cancel"'' @ [10]\<close>
    by (simp add: configLine_def js_def)
  have cancel: \<open>convertReferenceToConfig (js ''str_    3 | "Cancel"'') fileName
       = configHeader fileName @ js ''str_3 = "Cancel"'' @ [10]\<close>
    unfolding emitted one_line by (simp add: convertedLine_def found line3)
  have no_pipe: \<open>convertReferenceToConfig (js ''str_    3 "Cancel"'') fileName
       = configHeader fileName\<close>
    unfolding emitted one_line by (simp add: convertedLine_def not_found)
  show ?thesis
    using lines text_of_lines [of referenceText] leftmost leftmost_exists [of line ds v]
      absent cancel no_pipe
    by blast
qed

theorem convertReferenceToConfig_lines_witness:
  \<open>convertReferenceToConfig (joinLines referenceSample) (js ''A.class'')
     = configHeader (js ''A.class'') @ js ''str_3 = "Cancel"'' @ [10]
       @ configLine (js ''7'') (js ''a'' @ [92, 34] @ js ''b'')
   \<and> leftmostReferenceMatch (js ''str_    3 | "Cancel"'') (js ''3'') (js ''Cancel'')
   \<and> convertedLine (js ''str_    3 | "Cancel"'') = configLine (js ''3'') (js ''Cancel'')
   \<and> (\<forall>ds v. \<not> matchesReferencePattern (js ''str_    3 "Cancel"'') ds v)
   \<and> convertedLine (js ''str_    3 "Cancel"'') = []\<close>
proof -
  have ls: "referenceSample \<noteq> [] \<and> (\<forall>l \<in> set referenceSample. 10 \<notin> set l)"
    by (simp add: referenceSample_def twoMatchesLine_def js_def)
  have found: \<open>refSearch (js ''str_    3 | "Cancel"'') = Some (js ''3'', js ''Cancel'')\<close>
    and not_found: \<open>refSearch (js ''str_    3 "Cancel"'') = None\<close>
    and header: \<open>refSearch (js ''# ID    | Value (UTF-8)'') = None\<close>
    and twice: "refSearch twoMatchesLine = Some (js ''7'', js ''a'' @ [92, 34] @ js ''b'')"
    by (simp_all add: twoMatchesLine_def regex_eval)
  have left: \<open>leftmostReferenceMatch (js ''str_    3 | "Cancel"'') (js ''3'') (js ''Cancel'')\<close>
    using found by (simp add: refSearch_leftmost)
  have none: \<open>\<forall>ds v. \<not> matchesReferencePattern (js ''str_    3 "Cancel"'') ds v\<close>
    using not_found by (simp add: refSearch_None_iff)
  note t1 = convertReferenceToConfig_lines [of referenceSample "js ''A.class''" "[]"
      \<open>js ''str_    3 | "Cancel"''\<close> "js ''3''" "js ''Cancel''"]
  note t2 = convertReferenceToConfig_lines [of referenceSample "js ''A.class''" "[]"
      \<open>js ''str_    3 "Cancel"''\<close> "js ''3''" "js ''Cancel''"]
  have out: "convertReferenceToConfig (joinLines referenceSample) (js ''A.class'')
      = configHeader (js ''A.class'') @ concat (map convertedLine referenceSample)"
    using t1 ls by blast
  have c1: \<open>convertedLine (js ''str_    3 | "Cancel"'') = configLine (js ''3'') (js ''Cancel'')\<close>
    using t1 left by blast
  have c2: \<open>convertedLine (js ''str_    3 "Cancel"'') = []\<close>
    using t2 none by blast
  have c3: \<open>convertedLine (js ''# ID    | Value (UTF-8)'') = []\<close>
    by (simp add: convertedLine_def header)
  have c4: "convertedLine twoMatchesLine = configLine (js ''7'') (js ''a'' @ [92, 34] @ js ''b'')"
    by (simp add: convertedLine_def twice)
  have line3: \<open>configLine (js ''3'') (js ''Cancel'') = js ''str_3 = "Cancel"'' @ [10]\<close>
    by (simp add: configLine_def js_def)
  have split: "splitLines (joinLines referenceSample) = referenceSample"
    by (simp add: referenceSample_def twoMatchesLine_def js_def)
  have direct: "convertReferenceToConfig (joinLines referenceSample) (js ''A.class'')
      = foldl (\<lambda>output line.
                 case refSearch line of
                   Some (ident, v) \<Rightarrow> output @ configLine ident v
                 | None \<Rightarrow> output)
          (configHeader (js ''A.class'')) referenceSample"
    unfolding convertReferenceToConfig_def split ..
  have "convertReferenceToConfig (joinLines referenceSample) (js ''A.class'')
      = configHeader (js ''A.class'') @ js ''str_3 = \"Cancel\"'' @ [10]
        @ configLine (js ''7'') (js ''a'' @ [92, 34] @ js ''b'')"
    by (subst direct) (simp add: referenceSample_def found not_found header twice line3)
  moreover have "configHeader (js ''A.class'') @ concat (map convertedLine referenceSample)
      = configHeader (js ''A.class'') @ js ''str_3 = \"Cancel\"'' @ [10]
        @ configLine (js ''7'') (js ''a'' @ [92, 34] @ js ''b'')"
    by (simp add: referenceSample_def c1 c2 c3 c4 line3)
  ultimately show ?thesis
    using out left c1 none c2 by blast
qed

text \<open>
  Claim C7 as stated fails on \<open>escapedReturnLine\<close>: the line matches the pattern as the
  specification words it, its value holding no quote at all, and the conversion drops
  it, because the backslash in the value is followed by a carriage return.
\<close>

theorem escaped_line_terminator_dropped:
  "matchesClaimedPattern escapedReturnLine (js ''1'') (js ''a'' @ [92, 13] @ js ''b'')
   \<and> convertReferenceToConfig escapedReturnLine (js ''A.class'') = configHeader (js ''A.class'')"
proof -
  have \<open>escapedReturnLine
      = [] @ js ''str_'' @ [] @ js ''1'' @ [32] @ [124] @ [32] @ [34]
        @ (js ''a'' @ [92, 13] @ js ''b'') @ [34] @ []\<close>
    by (simp add: escapedReturnLine_def js_def)
  moreover have "list_all isSpace []" "list_all isSpace [32]" "js ''1'' \<noteq> []"
    "list_all isDigit (js ''1'')" "claimedValue (js ''a'' @ [92, 13] @ js ''b'')"
    by (simp_all add: isSpace_def isDigit_def js_def)
  ultimately have claimed: "matchesClaimedPattern escapedReturnLine (js ''1'')
      (js ''a'' @ [92, 13] @ js ''b'')"
    unfolding matchesClaimedPattern_def by blast
  have none: "refSearch escapedReturnLine = None"
    by (simp add: escapedReturnLine_def regex_eval)
  have one: "splitLines escapedReturnLine = [escapedReturnLine]"
    by (simp add: escapedReturnLine_def js_def)
  have "convertReferenceToConfig escapedReturnLine (js ''A.class'') = configHeader (js ''A.class'')"
    unfolding convertReferenceToConfig_def one by (simp add: none)
  then show ?thesis
    using claimed by blast
qed

section \<open>An edit lands on the entry the extraction numbered\<close>

lemma slice_slice: "a \<le> b \<Longrightarrow> b \<le> c \<Longrightarrow> slice B a b @ slice B b c = slice B a c"
proof -
  assume ab: "a \<le> b" and bc: "b \<le> c"
  have "take (c - a) (drop a B) = take ((b - a) + (c - b)) (drop a B)"
    using ab bc by simp
  also have "\<dots> = take (b - a) (drop a B) @ take (c - b) (drop (b - a) (drop a B))"
    by (rule take_add)
  also have "drop (b - a) (drop a B) = drop b B"
    using ab by simp
  finally show ?thesis
    by (simp add: slice_def)
qed

lemma slice_drop_rest: "a \<le> b \<Longrightarrow> slice B a b @ drop b B = drop a B"
proof -
  assume ab: "a \<le> b"
  have "take (b - a) (drop a B) @ drop (b - a) (drop a B) = drop a B"
    by (rule append_take_drop_id)
  moreover have "drop (b - a) (drop a B) = drop b B"
    using ab by simp
  ultimately show ?thesis
    by (simp only: slice_def)
qed

lemma splicedBytes_extend:
  assumes "a \<le> b" and "list_all (\<lambda>v. b + 3 \<le> payloadOffset v) vs"
  shows "slice B a b @ splicedBytes R B b vs = splicedBytes R B a vs"
proof (cases vs)
  case Nil
  then show ?thesis
    using assms(1) by (simp add: slice_drop_rest)
next
  case (Cons v t)
  then have "b \<le> payloadOffset v - 2"
    using assms(2) by auto
  then have "slice B a b @ slice B b (payloadOffset v - 2) = slice B a (payloadOffset v - 2)"
    using assms(1) by (rule slice_slice [rotated])
  then show ?thesis
    by (simp add: Cons)
qed

lemma slice_tag:
  assumes "getUint8 B off = Inr tag"
  shows "slice B off (off + 1) = writeU1 tag"
proof -
  have lt: "off < length B" and tag: "tag = unat (B ! off)"
    using assms by (auto simp: getUint8_def split: if_splits)
  have "take 1 (drop off B) = [B ! off]"
    using Cons_nth_drop_Suc [OF lt, symmetric] by simp
  then show ?thesis
    by (simp add: slice_def tag writeU1_unat)
qed

lemma visit_facts:
  assumes "getUint16 B (off + 1) = Inr len"
  shows "visitedLength B (Visit i (off + 3) sid) = len"
    and "visitedBytes B (Visit i (off + 3) sid) = slice B (off + 3) (off + 3 + len)"
proof -
  have "off + 3 - 2 = off + 1"
    by simp
  then show 1: "visitedLength B (Visit i (off + 3) sid) = len"
    using assms by (simp add: visitedLength_def)
  show "visitedBytes B (Visit i (off + 3) sid) = slice B (off + 3) (off + 3 + len)"
    unfolding visitedBytes_def 1 by simp
qed

lemma length_two: "length (x # y # xs) = 2 + length xs"
  by simp

lemma getUint_RangeError:
  "getUint32 B off = Inl e \<Longrightarrow> e = RangeError"
  "getUint16 B off = Inl e \<Longrightarrow> e = RangeError"
  by (simp_all add: getUint32_def getUint16_def split: if_splits)

text \<open>
  Claim C1. For every buffer, file name and edit text: the extractor and the assembler
  visit the same Utf8 entries, at the same pool indices and offsets, with the same
  verdict of the filter and the same stableId for each accepted one; the stableIds are
  \<open>0, 1, 2, ...\<close> in the order of the walk; every visit is an entry of the buffer, with a
  stableId exactly when its text is eligible. When the assembler returns bytes, the
  extraction returns the header and one line \<open>str_k\<close> for each visit with stableId \<open>k\<close>,
  holding the text of that entry, and the bytes are the buffer with, at each of these
  visits, the length and payload of the replacement for \<open>k\<close> when the edit text has one:
  the edit for \<open>k\<close> is applied to the entry reported as \<open>str_k\<close> and to no other. When the
  assembler throws, the extraction fails at the same place.
\<close>

theorem stableIds_agree:
  "assembleVisits L content editorText = extractVisits L content fileName
   \<and> assignedIds (extractVisits L content fileName)
       = [0..<length (assignedIds (extractVisits L content fileName))]
   \<and> list_all (visitOf L content) (extractVisits L content fileName)
   \<and> (case assembleClassFile L content editorText of
        Inr newBytes \<Rightarrow>
          extractStringsFromClass L content fileName
            = Inr (configHeader fileName @ reportedLines content (extractVisits L content fileName))
          \<and> newBytes = splicedBytes (parseReplacements editorText) content 0
                         (extractVisits L content fileName)
      | Inl e \<Rightarrow> walkFailure content e (extractStringsFromClass L content fileName))"
proof -
  have loops:
    "\<exists>vs. fst (extractLoop L B n i off k out lg) = lg @ vs
        \<and> list_all (\<lambda>v. off + 3 \<le> payloadOffset v \<and> visitOf L B v) vs
        \<and> (case snd (assembleLoop L R B n i off k nb lg) of
              Inr (off', nb') \<Rightarrow>
                snd (extractLoop L B n i off k out lg) = Inr (out @ reportedLines B vs)
                \<and> nb' @ drop off' B = nb @ splicedBytes R B off vs
            | Inl e \<Rightarrow> walkFailure B e (snd (extractLoop L B n i off k out lg)))"
    for B R n i off k out nb lg
  proof (induction "n - i" arbitrary: i off k out nb lg rule: less_induct)
    case less
    let ?E = "extractLoop L B n i off k out lg"
    let ?A = "assembleLoop L R B n i off k nb lg"
    show ?case
    proof (cases "i < n")
      case False
      have E: "?E = (lg, Inr out)"
        by (subst extractLoop.simps) (simp add: False)
      have A: "?A = (lg, Inr (off, nb))"
        by (subst assembleLoop.simps) (simp add: False)
      show ?thesis
        by (rule exI [of _ "[]"]) (simp add: E A)
    next
      case running: True
      show ?thesis
      proof (cases "getUint8 B off")
        case (Inl e)
        then have e: "e = RangeError"
          by (simp add: getUint8_def split: if_splits)
        have E: "?E = (lg, Inl RangeError)"
          by (subst extractLoop.simps) (simp add: running Inl e)
        have A: "?A = (lg, Inl RangeError)"
          by (subst assembleLoop.simps) (simp add: running Inl e)
        show ?thesis
          by (rule exI [of _ "[]"]) (simp add: E A walkFailure_def)
      next
        case tag: (Inr tag)
        have in_range: "off + 1 \<le> length B" "tag < 256"
          using tag unat_byte_lt [of "B ! off"] by (auto simp: getUint8_def split: if_splits)
        show ?thesis
        proof (cases "tag = CONSTANT_Utf8")
          case utf8: True
          show ?thesis
          proof (cases "getUint16 B (off + 1)")
            case (Inl e)
            then have "e = RangeError"
              by (simp add: getUint16_def split: if_splits)
            then have u16: "getUint16 B (Suc off) = Inl RangeError"
              using Inl by simp
            have E: "?E = (lg, Inl RangeError)"
              by (subst extractLoop.simps) (simp add: running tag utf8 u16)
            have A: "?A = (lg, Inl RangeError)"
              by (subst assembleLoop.simps) (simp add: running tag utf8 u16)
            show ?thesis
              by (rule exI [of _ "[]"]) (simp add: E A walkFailure_def)
          next
            case len: (Inr len)
            have u16: "getUint16 B (Suc off) = Inr len"
              using len by simp
            define raw where "raw = slice B (off + 3) (off + 3 + len)"
            define sid where "sid = (if isValidString L (decode raw) then Some k else None)"
            define v where "v = Visit i (off + 3) sid"
            define k' where "k' = (if isValidString L (decode raw) then k + 1 else k)"
            define line where "line = (if isValidString L (decode raw)
               then configLine (toString10 k) (toJavaUnicode (decode raw)) else [])"
            have v: "payloadOffset v = off + 3" "stableId v = sid" "visitedLength B v = len"
              "visitedBytes B v = raw"
              using visit_facts [OF len, of i sid] by (simp_all add: v_def raw_def)
            have vS: "isValidString L (decode raw) \<Longrightarrow> Visit i (off + 3) (Some k) = v"
              and vN: "\<not> isValidString L (decode raw) \<Longrightarrow> Visit i (off + 3) None = v"
              by (simp_all add: v_def sid_def)
            have w: "writtenBytes R B v
                = (if isValidString L (decode raw)
                   then (case R k of Some newText \<Rightarrow> encode newText | None \<Rightarrow> raw) else raw)"
              by (simp add: writtenBytes_def v sid_def split: option.splits)
            have E: "?E = extractLoop L B n (i + 1) (off + 3 + len) k' (out @ line) (lg @ [v])"
              by (subst extractLoop.simps)
                (simp add: running tag utf8 u16 Let_def raw_def sid_def v_def k'_def line_def)
            have A: "?A = assembleLoop L R B n (i + 1) (off + 3 + len) k'
                       (nb @ writeU1 tag @ writeU2 (length (writtenBytes R B v)) @ writtenBytes R B v)
                       (lg @ [v])"
              by (subst assembleLoop.simps)
                (simp add: running tag utf8 u16 Let_def w raw_def [symmetric] k'_def vS vN
                  split: option.splits)
            have "n - (i + 1) < n - i"
              using running by simp
            from less.hyps [OF this, of "off + 3 + len" k' "out @ line" "lg @ [v]"
                "nb @ writeU1 tag @ writeU2 (length (writtenBytes R B v)) @ writtenBytes R B v"]
            obtain vs where
              fst: "fst ?E = (lg @ [v]) @ vs"
              and all: "list_all (\<lambda>v. off + 3 + len + 3 \<le> payloadOffset v \<and> visitOf L B v) vs"
              and res: "case snd ?A of
                  Inr (off', nb') \<Rightarrow>
                    snd ?E = Inr ((out @ line) @ reportedLines B vs)
                    \<and> nb' @ drop off' B
                      = (nb @ writeU1 tag @ writeU2 (length (writtenBytes R B v)) @ writtenBytes R B v)
                        @ splicedBytes R B (off + 3 + len) vs
                | Inl e \<Rightarrow> walkFailure B e (snd ?E)"
              unfolding E A by blast
            have "off + 3 \<le> length B"
              using len by (simp add: getUint16_def split: if_splits)
            then have visit: "visitOf L B v"
              using tag utf8 by (simp add: visitOf_def v sid_def)
            have all': "list_all (\<lambda>v. off + 3 \<le> payloadOffset v \<and> visitOf L B v) (v # vs)"
              using all visit by (auto simp: v list_all_iff)
            have lines: "(out @ line) @ reportedLines B vs = out @ reportedLines B (v # vs)"
              by (simp add: v sid_def line_def)
            have "off + 3 - 2 = off + 1"
              by simp
            then have "slice B off (payloadOffset v - 2) = writeU1 tag"
              using slice_tag [OF tag] by (simp add: v)
            then have bytes: "(nb @ writeU1 tag @ writeU2 (length (writtenBytes R B v)) @ writtenBytes R B v)
                  @ splicedBytes R B (off + 3 + len) vs
                = nb @ splicedBytes R B off (v # vs)"
              by (simp add: v)
            show ?thesis
              apply (rule exI [of _ "v # vs"])
              using fst all' res unfolding lines bytes
              apply (simp split: sum.splits)
              done
          qed
        next
          case False
          then have other: "tag \<noteq> Suc 0"
            by simp
          show ?thesis
          proof (cases "skipExtract tag")
            case None
            then have none: "sizeAssemble tag = None"
              by (simp add: skipExtract_sizeAssemble)
            have E: "?E = (lg, Inr (unknownTagMessage tag (off + 1)))"
              by (subst extractLoop.simps) (simp add: running tag other None)
            have A: "?A = (lg, Inl (unknownTagError tag))"
              by (subst assembleLoop.simps) (simp add: running tag other none)
            have "walkFailure B (unknownTagError tag) (Inr (unknownTagMessage tag (off + 1)))"
              unfolding walkFailure_def using in_range by blast
            then show ?thesis
              by (intro exI [of _ "[]"]) (simp add: E A)
          next
            case (Some p)
            obtain sz extra where p: "p = (sz, extra)"
              by (cases p)
            have some: "sizeAssemble tag = Some (sz, extra)"
              using Some p by (simp add: skipExtract_sizeAssemble)
            have E: "?E = extractLoop L B n (i + extra + 1) (off + 1 + sz) k out lg"
              by (subst extractLoop.simps) (simp add: running tag other Some p)
            have A: "?A = assembleLoop L R B n (i + extra + 1) (off + 1 + sz) k
                       (nb @ writeU1 tag @ slice B (off + 1) (off + 1 + sz)) lg"
              by (subst assembleLoop.simps) (simp add: running tag other some)
            have "n - (i + extra + 1) < n - i"
              using running by simp
            from less.hyps [OF this, of "off + 1 + sz" k out lg
                "nb @ writeU1 tag @ slice B (off + 1) (off + 1 + sz)"]
            obtain vs where
              fst: "fst ?E = lg @ vs"
              and all: "list_all (\<lambda>v. off + 1 + sz + 3 \<le> payloadOffset v \<and> visitOf L B v) vs"
              and res: "case snd ?A of
                  Inr (off', nb') \<Rightarrow>
                    snd ?E = Inr (out @ reportedLines B vs)
                    \<and> nb' @ drop off' B
                      = (nb @ writeU1 tag @ slice B (off + 1) (off + 1 + sz))
                        @ splicedBytes R B (off + 1 + sz) vs
                | Inl e \<Rightarrow> walkFailure B e (snd ?E)"
              unfolding E A by blast
            have all': "list_all (\<lambda>v. off + 3 \<le> payloadOffset v \<and> visitOf L B v) vs"
              using all by (auto simp: list_all_iff)
            have later: "list_all (\<lambda>v. off + 1 + sz + 3 \<le> payloadOffset v) vs"
              using all by (auto simp: list_all_iff)
            have "writeU1 tag @ slice B (off + 1) (off + 1 + sz) = slice B off (off + 1 + sz)"
              using slice_slice [of off "off + 1" "off + 1 + sz" B] slice_tag [OF tag] by simp
            then have bytes: "(nb @ writeU1 tag @ slice B (off + 1) (off + 1 + sz))
                  @ splicedBytes R B (off + 1 + sz) vs
                = nb @ splicedBytes R B off vs"
              using splicedBytes_extend [OF _ later, of off B R] by simp
            show ?thesis
              apply (rule exI [of _ vs])
              using fst all' res unfolding bytes
              apply (simp split: sum.splits)
              done
          qed
        qed
      qed
    qed
  qed
  have outcome:
    "list_all (visitOf L B) (extractVisits L B fileName)
     \<and> (case assembleClassFile L B editorText of
          Inr newBytes \<Rightarrow>
            extractStringsFromClass L B fileName
              = Inr (configHeader fileName @ reportedLines B (extractVisits L B fileName))
            \<and> newBytes = splicedBytes (parseReplacements editorText) B 0 (extractVisits L B fileName)
        | Inl e \<Rightarrow> walkFailure B e (extractStringsFromClass L B fileName))"
    for B
  proof (cases "getUint32 B 0")
    case (Inl e)
    then show ?thesis
      using getUint_RangeError(1) [OF Inl]
      by (simp add: extractVisits_def extractStringsFromClass_def extractWalk_def
          assembleClassFile_def assembleWalk_def walkFailure_def)
  next
    case magic: (Inr m)
    show ?thesis
    proof (cases "m = 0xCAFEBABE")
      case False
      then show ?thesis
        using magic
        by (simp add: extractVisits_def extractStringsFromClass_def extractWalk_def
            assembleClassFile_def assembleWalk_def walkFailure_def)
    next
      case True
      show ?thesis
      proof (cases "getUint16 B 8")
        case (Inl e)
        then show ?thesis
          using magic True getUint_RangeError(2) [OF Inl]
          by (simp add: extractVisits_def extractStringsFromClass_def extractWalk_def
              assembleClassFile_def assembleWalk_def walkFailure_def)
      next
        case (Inr cpCount)
        define R where "R = parseReplacements editorText"
        let ?E = "extractLoop L B cpCount 1 10 0 (configHeader fileName) []"
        let ?A = "assembleLoop L R B cpCount 1 10 0 (copyHeader B @ writeU2 cpCount) []"
        have long: "10 \<le> length B" and count: "cpCount = unat (B ! 8) * 256 + unat (B ! 9)"
          using Inr by (auto simp: getUint16_def split: if_splits)
        have hdr: "copyHeader B @ writeU2 cpCount = slice B 0 10"
          using take10 [OF long] copyHeader_take [of B] long by (simp add: count slice_def)
        from loops [where B = B and n = cpCount and i = 1 and off = 10 and k = 0
            and out = "configHeader fileName" and lg = "[]" and R = R
            and nb = "copyHeader B @ writeU2 cpCount"]
        obtain vs where
          fst: "fst ?E = vs"
          and all: "list_all (\<lambda>v. 10 + 3 \<le> payloadOffset v \<and> visitOf L B v) vs"
          and res: "case snd ?A of
              Inr (off', nb') \<Rightarrow>
                snd ?E = Inr (configHeader fileName @ reportedLines B vs)
                \<and> nb' @ drop off' B = (copyHeader B @ writeU2 cpCount) @ splicedBytes R B 10 vs
            | Inl e \<Rightarrow> walkFailure B e (snd ?E)"
          by auto
        have later: "list_all (\<lambda>v. 10 + 3 \<le> payloadOffset v) vs"
          and visits: "list_all (visitOf L B) vs"
          using all by (auto simp: list_all_iff)
        have bytes: "(copyHeader B @ writeU2 cpCount) @ splicedBytes R B 10 vs = splicedBytes R B 0 vs"
          unfolding hdr using splicedBytes_extend [OF _ later, of 0 B R] by simp
        have V: "extractVisits L B fileName = vs"
          using magic True Inr fst by (simp add: extractVisits_def extractWalk_def)
        have E: "extractStringsFromClass L B fileName = snd ?E"
          using magic True Inr by (simp add: extractStringsFromClass_def extractWalk_def)
        have A: "assembleClassFile L B editorText
            = (case snd ?A of Inl e \<Rightarrow> Inl e | Inr (off', nb') \<Rightarrow> Inr (nb' @ drop off' B))"
          using magic True Inr
          by (simp add: assembleClassFile_def assembleWalk_def R_def split: prod.splits sum.splits)
        show ?thesis
          unfolding V E A R_def [symmetric]
          using visits res unfolding bytes
          by (auto split: sum.splits)
      qed
    qed
  qed
  show ?thesis
    using walks_same_visits [of L content fileName editorText]
      extractVisits_sequential [of L content fileName] outcome [of content]
    by simp
qed

theorem stableIds_agree_witness:
  \<open>assembleVisits asciiLetters filterClass (js ''str_0 = "Hi"'')
     = [Visit 1 13 None, Visit 2 34 (Some 0)]
   \<and> extractVisits asciiLetters filterClass (js ''A.class'')
     = [Visit 1 13 None, Visit 2 34 (Some 0)]
   \<and> extractStringsFromClass asciiLetters filterClass (js ''A.class'')
     = Inr (configHeader (js ''A.class'') @ js ''str_0 = "Hello World"'' @ [10])
   \<and> reportedLines filterClass [Visit 1 13 None, Visit 2 34 (Some 0)]
     = js ''str_0 = "Hello World"'' @ [10]
   \<and> assembleClassFile asciiLetters filterClass (js ''str_0 = "Hi"'')
     = Inr (classHeader 3 @ [1, 0, 18] @ asciiBytes ''Ljava/lang/String;''
            @ [1, 0, 2] @ asciiBytes ''Hi'')
   \<and> splicedBytes (parseReplacements (js ''str_0 = "Hi"'')) filterClass 0
       [Visit 1 13 None, Visit 2 34 (Some 0)]
     = classHeader 3 @ [1, 0, 18] @ asciiBytes ''Ljava/lang/String;''
       @ [1, 0, 2] @ asciiBytes ''Hi''\<close>
proof -
  have edit: \<open>parseReplacements (js ''str_0 = "Hi"'') = [0 \<mapsto> js ''Hi'']\<close>
    by (simp add: parseReplacements_def setReplacement_def regex_eval parseInt_def
        fromJavaUnicode_def jsonBody.simps jsonChar_def)
  have hdr: "copyHeader filterClass = [0xCA, 0xFE, 0xBA, 0xBE, 0, 0, 0, 0x34]"
    by (simp add: copyHeader_def filterClass_def classHeader_def asciiBytes_def upt_rec)
  have A: \<open>assembleClassFile asciiLetters filterClass (js ''str_0 = "Hi"'')
      = Inr (classHeader 3 @ [1, 0, 18] @ asciiBytes ''Ljava/lang/String;''
             @ [1, 0, 2] @ asciiBytes ''Hi'')\<close>
    unfolding assembleClassFile_def assembleWalk_def edit hdr
    by (simp add: filterClass_def assembleLoop.simps text_eval buffer_eval length_two
        del: list.size(4))
  have E: "extractStringsFromClass asciiLetters filterClass (js ''A.class'')
      = Inr (configHeader (js ''A.class'') @ configLine (js ''0'') (js ''Hello World''))"
    by (simp add: extractStringsFromClass_def extractWalk_def filterClass_def extractLoop.simps
        text_eval buffer_eval)
  have V: "extractVisits asciiLetters filterClass (js ''A.class'')
      = [Visit 1 13 None, Visit 2 34 (Some 0)]"
    by (simp add: extractVisits_def extractWalk_def filterClass_def extractLoop.simps
        text_eval buffer_eval)
  have line: \<open>configLine (js ''0'') (js ''Hello World'') = js ''str_0 = "Hello World"'' @ [10]\<close>
    by (simp add: configLine_def js_def)
  show ?thesis
    using stableIds_agree [of asciiLetters filterClass \<open>js ''str_0 = "Hi"''\<close> "js ''A.class''"]
    unfolding V A E line
    by simp
qed

section \<open>Round trip\<close>

lemma assembledPool_identity:
  assumes "reencodable L es"
    and "\<forall>j < length (eligibleTexts L es). R (k + j) = Some (eligibleTexts L es ! j)"
  shows "assembledPool L R k es = poolBytes es"
  using assms
proof (induction es arbitrary: k)
  case Nil
  then show ?case by simp
next
  case (Cons e es)
  show ?case
  proof (cases e)
    case (Utf8Entry p)
    show ?thesis
    proof (cases "isValidString L (decode p)")
      case True
      have first: "R k = Some (decode p)"
        using Cons.prems(2) [rule_format, of 0] by (simp add: Utf8Entry True)
      have later: "\<forall>j < length (eligibleTexts L es). R (Suc k + j) = Some (eligibleTexts L es ! j)"
      proof (intro allI impI)
        fix j
        assume "j < length (eligibleTexts L es)"
        then show "R (Suc k + j) = Some (eligibleTexts L es ! j)"
          using Cons.prems(2) [rule_format, of "Suc j"] by (simp add: Utf8Entry True)
      qed
      have "reencodable L es" "encode (decode p) = p"
        using Cons.prems(1) by (simp_all add: Utf8Entry True)
      then show ?thesis
        using Cons.IH [OF _ later] by (simp add: Utf8Entry True first)
    next
      case False
      then show ?thesis
        using Cons.prems Cons.IH [of k] by (simp add: Utf8Entry)
    qed
  next
    case (FixedEntry tag p)
    then show ?thesis
      using Cons.prems Cons.IH [of k] by simp
  qed
qed

lemma parseClass_bytes:
  assumes "parseClass B = Some (es, rest)"
  shows "take 10 B @ poolBytes es @ rest = B"
proof -
  have "drop 10 B = poolBytes es @ rest"
    using parsePool_bytes [OF parseClass_SomeD(4) [OF assms]] .
  then show ?thesis
    using append_take_drop_id [of 10 B] by simp
qed

text \<open>
  Claim C2, as the code has it. For a valid class file whose pool is re-encodable,
  assembling it with the config text that \<open>extractStringsFromClass\<close> returns for it,
  under any file name, gives back the file byte for byte.
\<close>

theorem round_trip:
  assumes "parseClass content = Some (es, rest)" and "reencodable L es"
  shows "\<exists>configText. extractStringsFromClass L content fileName = Inr configText
           \<and> assembleClassFile L content configText = Inr content"
proof -
  let ?text = "configHeader fileName @ numberedLines configLineOf 0 (eligibleTexts L es)"
  have "\<forall>j < length (eligibleTexts L es).
          parseReplacements ?text (0 + j) = Some (eligibleTexts L es ! j)"
    by (simp add: parseReplacements_config)
  then have "assembledPool L (parseReplacements ?text) 0 es = poolBytes es"
    by (rule assembledPool_identity [OF assms(2)])
  then have "assembleClassFile L content ?text = Inr content"
    by (simp add: assemble_parsed [OF assms(1)] parseClass_bytes [OF assms(1)])
  then show ?thesis
    using extract_parsed [OF assms(1)] by blast
qed

lemma utf8Decode_ascii:
  "list_all (\<lambda>b. b < 0x80) bs \<Longrightarrow> utf8Decode 0 0 0 0x80 0xBF bs = bs"
  by (induction bs) auto

lemma toUTF16_ascii: "list_all (\<lambda>b. b < 0x80) bs \<Longrightarrow> concat (map toUTF16 bs) = bs"
  by (induction bs) (auto simp: toUTF16_def)

lemma stripBOM_ascii: "list_all (\<lambda>b. b < 0x80) bs \<Longrightarrow> stripBOM bs = bs"
  by (cases bs) (auto simp: stripBOM_def)

lemma decode_ascii:
  assumes "list_all (\<lambda>b. b < 0x80) p"
  shows "decode p = map unat p"
proof -
  define bs where "bs = map unat p"
  have asc: "list_all (\<lambda>b. b < 0x80) bs"
    unfolding bs_def using assms by (induction p) (auto simp: word_less_nat_alt)
  have "decode p = concat (map toUTF16 (utf8Decode 0 0 0 0x80 0xBF (stripBOM bs)))"
    by (simp add: decode_def bs_def)
  also have "\<dots> = bs"
    by (simp only: stripBOM_ascii [OF asc] utf8Decode_ascii [OF asc] toUTF16_ascii [OF asc])
  finally show ?thesis
    by (simp add: bs_def)
qed

lemma code_points_ascii: "list_all (\<lambda>c. c < 0x80) t \<Longrightarrow> code_points t = t"
  by (induction t rule: code_points.induct) auto

lemma encode_ascii: "list_all (\<lambda>c. c < 0x80) t \<Longrightarrow> encode t = map of_nat t"
proof -
  assume a: "list_all (\<lambda>c. c < 0x80) t"
  have "concat (map (utf8Bytes \<circ> scalarValue) t) = t"
    using a by (induction t) (auto simp: utf8Bytes_def scalarValue_def)
  then show ?thesis
    by (simp add: encode_def code_points_ascii [OF a])
qed

lemma reencode_ascii:
  assumes "list_all (\<lambda>b. b < 0x80) p"
  shows "encode (decode p) = p"
proof -
  have "list_all (\<lambda>c. c < 0x80) (map unat p)"
    using assms by (induction p) (auto simp: word_less_nat_alt)
  then show ?thesis
    by (simp add: decode_ascii [OF assms] encode_ascii comp_def)
qed

lemma modifiedUtf8Class_parsed:
  "parseClass modifiedUtf8Class = Some ([Utf8Entry [0x4F, 0x4B, 0xC0, 0x80]], [])"
  by (simp add: modifiedUtf8Class_def parse_eval buffer_eval)

lemma modified_decode: "decode [0x4F, 0x4B, 0xC0, 0x80] = js ''OK'' @ [0xFFFD, 0xFFFD]"
  by (simp add: buffer_eval js_def)

lemma modified_valid: "isValidString L (js ''OK'' @ [0xFFFD, 0xFFFD])"
  by (simp add: text_eval)

lemma modified_encode: "encode (js ''OK'' @ [0xFFFD, 0xFFFD]) = [0x4F, 0x4B, 0xEF, 0xBF, 0xBD, 0xEF, 0xBF, 0xBD]"
  by (simp add: buffer_eval js_def)

lemma okClass_reencodable:
  "reencodable L [Utf8Entry (asciiBytes ''OK''), FixedEntry 3 [0, 0, 0, 1]]"
  by (simp add: reencode_ascii asciiBytes_def)

theorem round_trip_witness:
  "parseClass okClass = Some ([Utf8Entry (asciiBytes ''OK''), FixedEntry 3 [0, 0, 0, 1]], [0xAA, 0xBB])
   \<and> reencodable asciiLetters [Utf8Entry (asciiBytes ''OK''), FixedEntry 3 [0, 0, 0, 1]]
   \<and> extractStringsFromClass asciiLetters okClass (js ''A.class'')
       = Inr (configHeader (js ''A.class'') @ configLineOf 0 (js ''OK''))
   \<and> assembleClassFile asciiLetters okClass (configHeader (js ''A.class'') @ configLineOf 0 (js ''OK''))
       = Inr okClass"
proof -
  have ex: "extractStringsFromClass asciiLetters okClass (js ''A.class'')
       = Inr (configHeader (js ''A.class'') @ configLineOf 0 (js ''OK''))"
    using extract_parsed [OF okClass_parsed, of asciiLetters "js ''A.class''",
        unfolded okClass_texts]
    by simp
  obtain t where "extractStringsFromClass asciiLetters okClass (js ''A.class'') = Inr t"
    and "assembleClassFile asciiLetters okClass t = Inr okClass"
    using round_trip [OF okClass_parsed okClass_reencodable, of asciiLetters "js ''A.class''"]
    by blast
  then have "assembleClassFile asciiLetters okClass
      (configHeader (js ''A.class'') @ configLineOf 0 (js ''OK'')) = Inr okClass"
    using ex by simp
  then show ?thesis
    using ex okClass_parsed okClass_reencodable by blast
qed

text \<open>
  Claim C2 as stated fails on \<open>modifiedUtf8Class\<close>, a valid class file: the bytes
  \<open>C0 80\<close> decode to two U+FFFD, the entry is eligible and gets a line in the config
  text, and the assembler writes that text back as eight bytes where the file had four.
\<close>

theorem modified_utf8_not_round_trip:
  "parseClass modifiedUtf8Class = Some ([Utf8Entry [0x4F, 0x4B, 0xC0, 0x80]], [])
   \<and> extractStringsFromClass asciiLetters modifiedUtf8Class (js ''A.class'')
       = Inr (configHeader (js ''A.class'') @ configLineOf 0 (js ''OK'' @ [0xFFFD, 0xFFFD]))
   \<and> assembleClassFile asciiLetters modifiedUtf8Class
         (configHeader (js ''A.class'') @ configLineOf 0 (js ''OK'' @ [0xFFFD, 0xFFFD]))
       = Inr (classHeader 2 @ [1, 0, 8, 0x4F, 0x4B, 0xEF, 0xBF, 0xBD, 0xEF, 0xBF, 0xBD])
   \<and> classHeader 2 @ [1, 0, 8, 0x4F, 0x4B, 0xEF, 0xBF, 0xBD, 0xEF, 0xBF, 0xBD] \<noteq> modifiedUtf8Class"
proof -
  let ?t = "js ''OK'' @ [0xFFFD, 0xFFFD]"
  let ?text = "configHeader (js ''A.class'') @ numberedLines configLineOf 0 [?t]"
  have texts: "eligibleTexts L [Utf8Entry [0x4F, 0x4B, 0xC0, 0x80]] = [?t]" for L
    by (simp add: modified_decode modified_valid)
  have ex: "extractStringsFromClass asciiLetters modifiedUtf8Class (js ''A.class'') = Inr ?text"
    using extract_parsed [OF modifiedUtf8Class_parsed, of asciiLetters "js ''A.class''"]
    by (simp only: texts)
  have R: "parseReplacements (configHeader (js ''A.class'') @ configLineOf 0 ?t) 0 = Some ?t"
    using parseReplacements_config [of 0 "[?t]" "js ''A.class''"] by simp
  have hdr: "take 10 modifiedUtf8Class = classHeader 2"
    by (simp add: modifiedUtf8Class_def classHeader_def writeU2_def)
  have "assembleClassFile asciiLetters modifiedUtf8Class ?text
        = Inr (classHeader 2 @ [1, 0, 8, 0x4F, 0x4B, 0xEF, 0xBF, 0xBD, 0xEF, 0xBF, 0xBD])"
    by (simp add: assemble_parsed [OF modifiedUtf8Class_parsed] hdr modified_decode
        modified_valid R modified_encode utf8Bytes_of_def writeU2_eq)
  moreover have "classHeader 2 @ [1, 0, 8, 0x4F, 0x4B, 0xEF, 0xBF, 0xBD, 0xEF, 0xBF, 0xBD]
      \<noteq> modifiedUtf8Class"
    by (simp add: modifiedUtf8Class_def)
  ultimately show ?thesis
    using ex by (simp add: modifiedUtf8Class_parsed)
qed

subsection \<open>Well-formed UTF-8 is re-encodable\<close>

text \<open>
  The decoder reads a well-formed sequence of one to four bytes as one scalar value, the
  text holds it as one or two code units, and the encoder writes the same bytes again.
  The lemmas below follow the four lengths; \<open>reencode_standard\<close> puts them together.
\<close>

lemma code_points_plain:
  "\<not> (0xD800 \<le> c \<and> c \<le> 0xDBFF) \<Longrightarrow> code_points (c # t) = c # code_points t"
  by (cases t) auto

lemma reencodeAll_Nil: "reencodeAll [] = []"
  by (simp add: reencodeAll_def)

lemma reencodeAll_small:
  assumes "cp < 0xD800 \<or> (0xE000 \<le> cp \<and> cp < 0x10000)"
  shows "reencodeAll (cp # cps) = utf8Bytes cp @ reencodeAll cps"
proof -
  have "\<not> (0xD800 \<le> cp \<and> cp \<le> 0xDBFF)" "cp < 0x10000" "scalarValue cp = cp"
    using assms by (auto simp: scalarValue_def)
  then show ?thesis
    by (simp add: reencodeAll_def toUTF16_def code_points_plain)
qed

lemma split1024: "(n :: nat) div 1024 * 1024 + n mod 1024 = n"
  by simp

lemma reencodeAll_large:
  assumes "0x10000 \<le> cp" and "cp \<le> 0x10FFFF"
  shows "reencodeAll (cp # cps) = utf8Bytes cp @ reencodeAll cps"
proof -
  define n where "n = cp - 0x10000"
  have n: "n < 0x100000" "cp = 0x10000 + n"
    using assms by (simp_all add: n_def)
  have hi: "n div 1024 < 1024"
    using n(1) by simp
  have "code_points ((0xD800 + n div 1024) # (0xDC00 + n mod 1024) # t)
        = (0x10000 + n) # code_points t" for t
    using hi split1024 [of n] by simp
  moreover have "scalarValue cp = cp"
    using assms by (simp add: scalarValue_def)
  ultimately show ?thesis
    using assms(1) by (simp add: reencodeAll_def toUTF16_def n(2))
qed

lemma divmod64: "b < 64 \<Longrightarrow> (a * 64 + b) div 64 = (a::nat) \<and> (a * 64 + b) mod 64 = b"
  by simp

lemma mod_offset:
  fixes b :: nat
  assumes "k * m \<le> b" and "b < k * m + m"
  shows "b mod m = b - k * m"
proof -
  have "(k * m + (b - k * m)) mod m = (b - k * m) mod m"
    by (rule mod_mult_self3)
  moreover have "k * m + (b - k * m) = b" "b - k * m < m"
    using assms by simp_all
  ultimately show ?thesis
    by simp
qed

lemma lead2: "192 \<le> b \<Longrightarrow> b < 224 \<Longrightarrow> b mod 32 = b - (192::nat)"
  using mod_offset [of 6 32 b] by simp

lemma lead3: "224 \<le> b \<Longrightarrow> b < 240 \<Longrightarrow> b mod 16 = b - (224::nat)"
  using mod_offset [of 14 16 b] by simp

lemma lead4: "240 \<le> b \<Longrightarrow> b < 248 \<Longrightarrow> b mod 8 = b - (240::nat)"
  using mod_offset [of 30 8 b] by simp

lemma trail: "128 \<le> b \<Longrightarrow> b < 192 \<Longrightarrow> b mod 64 = b - (128::nat)"
  using mod_offset [of 2 64 b] by simp

lemma dec2:
  assumes "0xC2 \<le> b0" and "b0 \<le> 0xDF" and "isContinuation b1"
  shows "utf8Decode 0 0 0 0x80 0xBF (b0 # b1 # r)
         = (b0 mod 32 * 64 + b1 mod 64) # utf8Decode 0 0 0 0x80 0xBF r"
  using assms by (simp add: isContinuation_def)

lemma dec3:
  assumes "0xE0 \<le> b0" and "b0 \<le> 0xEF"
    and "(if b0 = 0xE0 then 0xA0 else 0x80) \<le> b1"
    and "b1 \<le> (if b0 = 0xED then 0x9F else 0xBF)"
    and "isContinuation b2"
  shows "utf8Decode 0 0 0 0x80 0xBF (b0 # b1 # b2 # r)
         = ((b0 mod 16 * 64 + b1 mod 64) * 64 + b2 mod 64) # utf8Decode 0 0 0 0x80 0xBF r"
  using assms by (simp add: isContinuation_def)

lemma dec4:
  assumes "0xF0 \<le> b0" and "b0 \<le> 0xF4"
    and "(if b0 = 0xF0 then 0x90 else 0x80) \<le> b1"
    and "b1 \<le> (if b0 = 0xF4 then 0x8F else 0xBF)"
    and "isContinuation b2" and "isContinuation b3"
  shows "utf8Decode 0 0 0 0x80 0xBF (b0 # b1 # b2 # b3 # r)
         = (((b0 mod 8 * 64 + b1 mod 64) * 64 + b2 mod 64) * 64 + b3 mod 64)
           # utf8Decode 0 0 0 0x80 0xBF r"
  using assms by (simp add: isContinuation_def)

lemma enc2:
  assumes "2 \<le> x" "x < 32" "y < 64"
  shows "utf8Bytes (x * 64 + y) = [192 + x, 128 + y]"
proof -
  have "128 \<le> x * 64 + y" "x * 64 + y < 2048"
    using assms by simp_all
  then show ?thesis
    using assms(3) by (simp add: utf8Bytes_def)
qed

lemma enc3:
  assumes "x < 16" "y < 64" "z < 64" "x = 0 \<longrightarrow> 32 \<le> y"
  shows "utf8Bytes ((x * 64 + y) * 64 + z) = [224 + x, 128 + y, 128 + z]"
proof -
  define cp where "cp = (x * 64 + y) * 64 + z"
  have range: "2048 \<le> cp" "cp < 65536"
    using assms by (auto simp: cp_def)
  have d1: "cp div 64 = x * 64 + y" and m1: "cp mod 64 = z"
    unfolding cp_def using divmod64 [OF assms(3), of "x * 64 + y"] by blast+
  have "cp div 4096 = cp div 64 div 64"
    by (simp add: div_mult2_eq)
  then have d2: "cp div 4096 = x" and m2: "cp div 64 mod 64 = y"
    unfolding d1 using divmod64 [OF assms(2), of x] by simp_all
  have "utf8Bytes cp = [224 + x, 128 + y, 128 + z]"
    using range by (simp add: utf8Bytes_def d2 m2 m1)
  then show ?thesis
    by (simp only: cp_def)
qed

lemma enc4:
  assumes "x \<le> 4" "y < 64" "z < 64" "w < 64" "x = 0 \<longrightarrow> 16 \<le> y"
  shows "utf8Bytes (((x * 64 + y) * 64 + z) * 64 + w) = [240 + x, 128 + y, 128 + z, 128 + w]"
proof -
  define cp where "cp = ((x * 64 + y) * 64 + z) * 64 + w"
  have range: "65536 \<le> cp"
    using assms by (auto simp: cp_def)
  have d1: "cp div 64 = (x * 64 + y) * 64 + z" and m1: "cp mod 64 = w"
    unfolding cp_def using divmod64 [OF assms(4), of "(x * 64 + y) * 64 + z"] by blast+
  have "cp div 4096 = cp div 64 div 64"
    by (simp add: div_mult2_eq)
  then have d2: "cp div 4096 = x * 64 + y" and m2: "cp div 64 mod 64 = z"
    unfolding d1 using divmod64 [OF assms(3), of "x * 64 + y"] by simp_all
  have "cp div 262144 = cp div 4096 div 64"
    by (simp add: div_mult2_eq)
  then have d3: "cp div 262144 = x" and m3: "cp div 4096 mod 64 = y"
    unfolding d2 using divmod64 [OF assms(2), of x] by simp_all
  have "utf8Bytes cp = [240 + x, 128 + y, 128 + z, 128 + w]"
    using range by (simp add: utf8Bytes_def d3 m3 m2 m1)
  then show ?thesis
    by (simp only: cp_def)
qed

lemma scalar3:
  fixes x y z :: nat
  assumes "x < 16" "y < 64" "z < 64" "x = 13 \<longrightarrow> y \<le> 31"
  shows "(x * 64 + y) * 64 + z < 0xD800
         \<or> (0xE000 \<le> (x * 64 + y) * 64 + z \<and> (x * 64 + y) * 64 + z < 0x10000)"
proof -
  consider "x \<le> 12" | "x = 13" | "14 \<le> x"
    by linarith
  then show ?thesis
    using assms by cases simp_all
qed

lemma scalar4:
  fixes x y z w :: nat
  assumes "x \<le> 4" "y < 64" "z < 64" "w < 64" "x = 0 \<longrightarrow> 16 \<le> y" "x = 4 \<longrightarrow> y \<le> 15"
  shows "0x10000 \<le> ((x * 64 + y) * 64 + z) * 64 + w
         \<and> ((x * 64 + y) * 64 + z) * 64 + w \<le> 0x10FFFF"
proof -
  consider "x = 0" | "1 \<le> x \<and> x \<le> 3" | "x = 4"
    using assms(1) by linarith
  then show ?thesis
    using assms by cases simp_all
qed

lemma trail_byte:
  assumes "isContinuation b"
  shows "b mod 64 < 64" and "128 + b mod 64 = b"
  using assms trail [of b] by (simp_all add: isContinuation_def)

lemma step1:
  assumes "b0 \<le> 0x7F"
  shows "reencodeAll (utf8Decode 0 0 0 0x80 0xBF (b0 # r))
         = b0 # reencodeAll (utf8Decode 0 0 0 0x80 0xBF r)"
proof -
  have "utf8Bytes b0 = [b0]"
    using assms by (simp add: utf8Bytes_def)
  then show ?thesis
    using assms by (simp add: reencodeAll_small)
qed

lemma step2:
  assumes "0xC2 \<le> b0" and "b0 \<le> 0xDF" and "isContinuation b1"
  shows "reencodeAll (utf8Decode 0 0 0 0x80 0xBF (b0 # b1 # r))
         = b0 # b1 # reencodeAll (utf8Decode 0 0 0 0x80 0xBF r)"
proof -
  define x y where "x = b0 mod 32" and "y = b1 mod 64"
  have x: "2 \<le> x" "x < 32" "192 + x = b0"
    using assms(1,2) lead2 [of b0] by (simp_all add: x_def)
  have y: "y < 64" "128 + y = b1"
    using trail_byte [OF assms(3)] by (simp_all add: y_def)
  have "x * 64 + y < 0xD800"
    using x(2) y(1) by simp
  then have "reencodeAll ((x * 64 + y) # cps) = [b0, b1] @ reencodeAll cps" for cps
    using reencodeAll_small [of "x * 64 + y" cps] enc2 [OF x(1,2) y(1)]
    by (simp only: x(3) y(2)) simp
  then show ?thesis
    unfolding dec2 [OF assms] x_def y_def by simp
qed

lemma step3:
  assumes "0xE0 \<le> b0" and "b0 \<le> 0xEF"
    and "(if b0 = 0xE0 then 0xA0 else 0x80) \<le> b1"
    and "b1 \<le> (if b0 = 0xED then 0x9F else 0xBF)"
    and "isContinuation b2"
  shows "reencodeAll (utf8Decode 0 0 0 0x80 0xBF (b0 # b1 # b2 # r))
         = b0 # b1 # b2 # reencodeAll (utf8Decode 0 0 0 0x80 0xBF r)"
proof -
  define x y z where "x = b0 mod 16" and "y = b1 mod 64" and "z = b2 mod 64"
  have x: "x < 16" "224 + x = b0"
    using assms(1,2) lead3 [of b0] by (simp_all add: x_def)
  have "isContinuation b1"
    using assms(3,4) by (simp add: isContinuation_def split: if_splits)
  then have y: "y < 64" "128 + y = b1"
    using trail_byte [of b1] by (simp_all add: y_def)
  have z: "z < 64" "128 + z = b2"
    using trail_byte [OF assms(5)] by (simp_all add: z_def)
  have lo: "x = 0 \<longrightarrow> 32 \<le> y"
    using assms(3) x(2) y(2) by (auto split: if_splits)
  have hi: "x = 13 \<longrightarrow> y \<le> 31"
    using assms(4) x(2) y(2) by (auto split: if_splits)
  have "reencodeAll (((x * 64 + y) * 64 + z) # cps) = [b0, b1, b2] @ reencodeAll cps" for cps
    using reencodeAll_small [OF scalar3 [OF x(1) y(1) z(1) hi], of cps]
      enc3 [OF x(1) y(1) z(1) lo]
    by (simp only: x(2) y(2) z(2))
  then show ?thesis
    unfolding dec3 [OF assms] x_def y_def z_def by simp
qed

lemma step4:
  assumes "0xF0 \<le> b0" and "b0 \<le> 0xF4"
    and "(if b0 = 0xF0 then 0x90 else 0x80) \<le> b1"
    and "b1 \<le> (if b0 = 0xF4 then 0x8F else 0xBF)"
    and "isContinuation b2" and "isContinuation b3"
  shows "reencodeAll (utf8Decode 0 0 0 0x80 0xBF (b0 # b1 # b2 # b3 # r))
         = b0 # b1 # b2 # b3 # reencodeAll (utf8Decode 0 0 0 0x80 0xBF r)"
proof -
  define x y z w where "x = b0 mod 8" and "y = b1 mod 64" and "z = b2 mod 64"
    and "w = b3 mod 64"
  have x: "x \<le> 4" "240 + x = b0"
    using assms(1,2) lead4 [of b0] by (simp_all add: x_def)
  have "isContinuation b1"
    using assms(3,4) by (simp add: isContinuation_def split: if_splits)
  then have y: "y < 64" "128 + y = b1"
    using trail_byte [of b1] by (simp_all add: y_def)
  have z: "z < 64" "128 + z = b2"
    using trail_byte [OF assms(5)] by (simp_all add: z_def)
  have w: "w < 64" "128 + w = b3"
    using trail_byte [OF assms(6)] by (simp_all add: w_def)
  have lo: "x = 0 \<longrightarrow> 16 \<le> y"
    using assms(3) x(2) y(2) by (auto split: if_splits)
  have hi: "x = 4 \<longrightarrow> y \<le> 15"
    using assms(4) x(2) y(2) by (auto split: if_splits)
  have range: "0x10000 \<le> ((x * 64 + y) * 64 + z) * 64 + w"
      "((x * 64 + y) * 64 + z) * 64 + w \<le> 0x10FFFF"
    using scalar4 [OF x(1) y(1) z(1) w(1) lo hi] by blast+
  have "reencodeAll ((((x * 64 + y) * 64 + z) * 64 + w) # cps)
        = [b0, b1, b2, b3] @ reencodeAll cps" for cps
    using reencodeAll_large [OF range, of cps] enc4 [OF x(1) y(1) z(1) w(1) lo]
    by (simp only: x(2) y(2) z(2) w(2))
  then show ?thesis
    unfolding dec4 [OF assms] x_def y_def z_def w_def by simp
qed

lemma wellFormed2D:
  assumes "wellFormedUtf8 (b0 # t)" and "0xC2 \<le> b0" and "b0 \<le> 0xDF"
  obtains b1 r where "t = b1 # r" and "isContinuation b1" and "wellFormedUtf8 r"
  using assms by (auto split: list.splits)

lemma wellFormed3D:
  assumes "wellFormedUtf8 (b0 # t)" and "0xE0 \<le> b0" and "b0 \<le> 0xEF"
  obtains b1 b2 r where "t = b1 # b2 # r"
    and "(if b0 = 0xE0 then 0xA0 else 0x80) \<le> b1"
    and "b1 \<le> (if b0 = 0xED then 0x9F else 0xBF)"
    and "isContinuation b2" and "wellFormedUtf8 r"
  using assms by (auto split: list.splits)

lemma wellFormed4D:
  assumes "wellFormedUtf8 (b0 # t)" and "0xF0 \<le> b0" and "b0 \<le> 0xF4"
  obtains b1 b2 b3 r where "t = b1 # b2 # b3 # r"
    and "(if b0 = 0xF0 then 0x90 else 0x80) \<le> b1"
    and "b1 \<le> (if b0 = 0xF4 then 0x8F else 0xBF)"
    and "isContinuation b2" and "isContinuation b3" and "wellFormedUtf8 r"
  using assms by (auto split: list.splits)

lemma wellFormed_lead:
  assumes "wellFormedUtf8 (b0 # t)"
  shows "b0 \<le> 0x7F \<or> (0xC2 \<le> b0 \<and> b0 \<le> 0xDF) \<or> (0xE0 \<le> b0 \<and> b0 \<le> 0xEF)
         \<or> (0xF0 \<le> b0 \<and> b0 \<le> 0xF4)"
  using assms by (auto split: if_splits)

lemma reencode_wellFormed:
  "wellFormedUtf8 bs \<Longrightarrow> reencodeAll (utf8Decode 0 0 0 0x80 0xBF bs) = bs"
proof (induction bs rule: length_induct)
  case (1 bs)
  show ?case
  proof (cases bs)
    case Nil
    then show ?thesis
      by (simp add: reencodeAll_Nil)
  next
    case (Cons b0 t)
    have wf: "wellFormedUtf8 (b0 # t)"
      using "1.prems" Cons by simp
    have IH: "reencodeAll (utf8Decode 0 0 0 0x80 0xBF r) = r"
      if "length r < length bs" and "wellFormedUtf8 r" for r
      using "1.IH" that by blast
    consider (one) "b0 \<le> 0x7F" | (two) "0xC2 \<le> b0" "b0 \<le> 0xDF"
      | (three) "0xE0 \<le> b0" "b0 \<le> 0xEF" | (four) "0xF0 \<le> b0" "b0 \<le> 0xF4"
      using wellFormed_lead [OF wf] by blast
    then show ?thesis
    proof cases
      case one
      then have "wellFormedUtf8 t"
        using wf by simp
      then have "reencodeAll (utf8Decode 0 0 0 0x80 0xBF t) = t"
        using IH [of t] Cons by simp
      then show ?thesis
        unfolding Cons step1 [OF one] by simp
    next
      case two
      from wellFormed2D [OF wf two] obtain b1 r
        where t: "t = b1 # r" and c: "isContinuation b1" and r: "wellFormedUtf8 r"
        by blast
      have "reencodeAll (utf8Decode 0 0 0 0x80 0xBF r) = r"
        using IH [OF _ r] Cons t by simp
      then show ?thesis
        unfolding Cons t step2 [OF two c] by simp
    next
      case three
      from wellFormed3D [OF wf three] obtain b1 b2 r
        where t: "t = b1 # b2 # r"
          and c: "(if b0 = 0xE0 then 0xA0 else 0x80) \<le> b1"
            "b1 \<le> (if b0 = 0xED then 0x9F else 0xBF)" "isContinuation b2"
          and r: "wellFormedUtf8 r"
        by blast
      have "reencodeAll (utf8Decode 0 0 0 0x80 0xBF r) = r"
        using IH [OF _ r] Cons t by simp
      then show ?thesis
        unfolding Cons t step3 [OF three c] by simp
    next
      case four
      from wellFormed4D [OF wf four] obtain b1 b2 b3 r
        where t: "t = b1 # b2 # b3 # r"
          and c: "(if b0 = 0xF0 then 0x90 else 0x80) \<le> b1"
            "b1 \<le> (if b0 = 0xF4 then 0x8F else 0xBF)" "isContinuation b2" "isContinuation b3"
          and r: "wellFormedUtf8 r"
        by blast
      have "reencodeAll (utf8Decode 0 0 0 0x80 0xBF r) = r"
        using IH [OF _ r] Cons t by simp
      then show ?thesis
        unfolding Cons t step4 [OF four c] by simp
    qed
  qed
qed

lemma reencode_standard:
  assumes "standardUtf8 p"
  shows "encode (decode p) = p"
proof -
  have "stripBOM (map unat p) = map unat p"
    using assms by (simp add: standardUtf8_def stripBOM_def)
  then have "encode (decode p) = map of_nat (reencodeAll (utf8Decode 0 0 0 0x80 0xBF (map unat p)))"
    by (simp add: encode_def decode_def reencodeAll_def)
  also have "\<dots> = map of_nat (map unat p)"
    using assms by (simp add: standardUtf8_def reencode_wellFormed)
  also have "\<dots> = p"
    by (simp add: comp_def)
  finally show ?thesis .
qed

lemma standardPool_reencodable: "standardPool es \<Longrightarrow> reencodable L es"
  by (induction es rule: standardPool.induct) (simp_all add: reencode_standard)

text \<open>
  The predicate holds of the two, three and four byte forms (U+00E9, U+20AC, U+1F600) and
  fails on the overlong \<open>C0 80\<close>.
\<close>

lemma standardUtf8_examples:
  "standardUtf8 [0xC3, 0xA9, 0xE2, 0x82, 0xAC, 0xF0, 0x9F, 0x98, 0x80]"
  "\<not> standardUtf8 [0x4F, 0x4B, 0xC0, 0x80]"
  by (simp_all add: standardUtf8_def isContinuation_def)

section \<open>The last edit for an id wins\<close>








section \<open>The length field of a replaced entry\<close>

lemma toJavaUnicode_plain:
  "list_all (\<lambda>c. 32 \<le> c \<and> c \<noteq> 34 \<and> c \<noteq> 92) t \<Longrightarrow> toJavaUnicode t = t"
  by (induction t) (auto simp: toJavaUnicode_def escapeChar_def)

lemma long_value:
  "toJavaUnicode (replicate n 97) = replicate n 97"
  "encode (replicate n 97) = replicate n 97"
  "10 \<notin> set (replicate n (97 :: nat))"
proof -
  show "toJavaUnicode (replicate n 97) = replicate n 97"
    by (rule toJavaUnicode_plain) (simp add: list_all_iff)
  have "encode (replicate n 97) = map of_nat (replicate n 97)"
    by (rule encode_ascii) (simp add: list_all_iff)
  then show "encode (replicate n 97) = replicate n 97"
    by simp
  show "10 \<notin> set (replicate n (97 :: nat))"
    by simp
qed

lemma long_edit:
  "parseReplacements (bareConfigLine (js ''0'') (replicate n 97)) = [0 \<mapsto> replicate n 97]"
proof -
  have line: "bareConfigLine (js ''0'') (replicate n 97)
      = bareConfigLine (toString10 0) (toJavaUnicode (replicate n 97))"
    by (simp add: long_value(1) toString10.simps js_def)
  have "10 \<notin> set (bareConfigLine (js ''0'') (replicate n 97))"
    by (simp add: bareConfigLine_def js_def)
  then have "splitLines (bareConfigLine (js ''0'') (replicate n 97))
      = [bareConfigLine (js ''0'') (replicate n 97)]"
    by (rule splitLines_no_newline)
  then show ?thesis
    by (simp add: parseReplacements_def) (simp only: line setReplacement_bare)
qed

text \<open>
  Claim C3. \<open>writeU2\<close> keeps sixteen bits of the length. On \<open>okClass\<close> with the edit
  \<open>str_0 = "aaa...a"\<close> of 65536 letters the assembler writes the length field \<open>00 00\<close>
  and then all 65536 bytes: the length field is not the byte count of the replacement.
\<close>

theorem long_replacement_length_wraps:
  "assembleClassFile L okClass (js ''str_0 = '' @ [34] @ replicate 65536 97 @ [34])
   = Inr (classHeader 3 @ [1, 0, 0] @ replicate 65536 97 @ [3, 0, 0, 0, 1, 0xAA, 0xBB])"
proof -
  have edit_text: "js ''str_0 = '' @ [34] @ replicate 65536 97 @ [34]
      = bareConfigLine (js ''0'') (replicate 65536 97)"
    by (simp add: bareConfigLine_def js_def)
  have valid: "isValidString L (decode (asciiBytes ''OK''))"
    by (simp add: text_eval buffer_eval)
  have hdr: "take 10 okClass = classHeader 3"
    by (simp add: okClass_def classHeader_def writeU2_def)
  have len: "writeU2 65536 = [0, 0]"
    by (simp add: writeU2_eq)
  show ?thesis
    unfolding edit_text
    by (simp add: assemble_parsed [OF okClass_parsed] long_edit valid hdr long_value(2)
        utf8Bytes_of_def len)
qed

text \<open>
  Below 65536 the two bytes of \<open>writeU2\<close> read back as the number written; the number
  plus 65536 is written as the number itself.
\<close>

lemma writeU2_exact:
  assumes "n < 65536"
  shows "getUint16 (writeU2 n) 0 = Inr n"
proof -
  have "n div 256 < 256"
    using assms by simp
  then have "unat (of_nat (n div 256 mod 256) :: byte) = n div 256"
    by (simp add: unat_of_nat)
  moreover have "unat (of_nat (n mod 256) :: byte) = n mod 256"
    by (simp add: unat_of_nat)
  ultimately show ?thesis
    by (simp add: getUint16_def writeU2_eq)
qed

lemma writeU2_wraps: "writeU2 (n + 65536) = writeU2 n"
proof -
  have split: "n + 65536 = n + 256 * 256"
    by simp
  have "(n + 65536) div 256 = n div 256 + 256"
    unfolding split by (simp only: div_mult_self2)
  then have "(n + 65536) div 256 mod 256 = n div 256 mod 256"
    by simp
  moreover have "(n + 65536) mod 256 = n mod 256"
    unfolding split by (simp only: mod_mult_self2)
  ultimately show ?thesis
    by (simp add: writeU2_eq)
qed

end
